theory Spec2Isabelle
  imports Complex_Main "HOL-Library.Sublist" "HOL-Library.Multiset"
    "HOL-Library.Product_Lexorder"
begin

section \<open>The page: a DOM tree with layout facts\<close>

text \<open>
  The scripts \<^verbatim>\<open>browser-annotate.js\<close> (markPage) and the two cleanup scripts run
  against the live document. The document is modelled as the tree it is: an element
  node carries its tag name, its attributes (an association list, as the DOM keeps
  them in order), the client rectangles the layout engine reports for it, its client
  size and its inline style; a text node carries its string (a list of
  characters, each standing for a code unit below 256). An element reference of
  the script is the position of the element in the tree: the list of child indices
  from the document element down. \<^verbatim>\<open>a.contains(b)\<close> is then the prefix
  relation on references and \<^verbatim>\<open>parentElement\<close> drops the last index.

  JavaScript numbers are modelled as real numbers. Comparisons, \<open>max\<close> and \<open>min\<close> are
  then those of the script; sums, differences and products are exact where binary64
  rounds, so the area of an item is the exact one and may differ from the computed
  one in the last place. The theorems below are about which rectangles and items are
  kept, how they are ordered and how the page changes; none of them states the value
  of an area.
\<close>

type_synonym ref = "nat list"

text \<open>
  A DOMRect as the script reads it: the six numbers the host reports through the
  getters \<^verbatim>\<open>left\<close>, \<^verbatim>\<open>top\<close>, \<^verbatim>\<open>right\<close>, \<^verbatim>\<open>bottom\<close>, \<^verbatim>\<open>width\<close> and \<^verbatim>\<open>height\<close>.
\<close>

record domrect =
  bb_left :: real
  bb_top :: real
  bb_right :: real
  bb_bottom :: real
  bb_width :: real
  bb_height :: real

datatype cssval = Px real | Lit string

record element =
  tagName :: string
  attributes :: "(string \<times> string) list"
  clientRects :: "domrect list"
  clientWidth :: real
  clientHeight :: real
  style :: "(string \<times> cssval) list"

datatype node = Elem element "node list" | Text string

record page =
  documentElement :: "node option"
  innerWidth :: real
  innerHeight :: real
  elementFromPoint :: "real \<Rightarrow> real \<Rightarrow> ref option"

datatype error = TypeError

subsection \<open>Attributes\<close>

definition hasAttribute :: "element \<Rightarrow> string \<Rightarrow> bool" where
  "hasAttribute e k = (map_of (attributes e) k \<noteq> None)"

definition getAttribute :: "element \<Rightarrow> string \<Rightarrow> string option" where
  "getAttribute e k = map_of (attributes e) k"

fun assign :: "string \<Rightarrow> string \<Rightarrow> (string \<times> string) list \<Rightarrow> (string \<times> string) list" where
  "assign k v [] = [(k, v)]"
| "assign k v ((k', v') # kvs) =
     (if k' = k then (k, v) # kvs else (k', v') # assign k v kvs)"

definition setAttribute :: "string \<Rightarrow> string \<Rightarrow> element \<Rightarrow> element" where
  "setAttribute k v e = e\<lparr>attributes := assign k v (attributes e)\<rparr>"

definition removeAttribute :: "string \<Rightarrow> element \<Rightarrow> element" where
  "removeAttribute k e = e\<lparr>attributes := filter (\<lambda>kv. fst kv \<noteq> k) (attributes e)\<rparr>"

text \<open>\<^verbatim>\<open>String(n)\<close> for a non-negative integer: its decimal digits.\<close>

definition digit :: "nat \<Rightarrow> char" where
  "digit d = char_of (48 + d)"

fun decimal :: "nat \<Rightarrow> string" where
  "decimal n = (if n < 10 then [digit n] else decimal (n div 10) @ [digit (n mod 10)])"

declare decimal.simps [simp del]

subsection \<open>Walking the tree\<close>

fun nodeAt :: "node \<Rightarrow> ref \<Rightarrow> node option" where
  "nodeAt n [] = Some n"
| "nodeAt (Elem e ks) (i # p) = (if i < length ks then nodeAt (ks ! i) p else None)"
| "nodeAt (Text s) (i # p) = None"

definition elementAt :: "node \<Rightarrow> ref \<Rightarrow> element option" where
  "elementAt n p = (case nodeAt n p of Some (Elem e ks) \<Rightarrow> Some e | _ \<Rightarrow> None)"

definition childNodes :: "node \<Rightarrow> ref \<Rightarrow> node list option" where
  "childNodes n p = (case nodeAt n p of Some (Elem e ks) \<Rightarrow> Some ks | _ \<Rightarrow> None)"

text \<open>
  The elements of a subtree in document order (pre-order), each with its reference:
  what \<^verbatim>\<open>querySelectorAll("*")\<close> enumerates.
\<close>

fun elems :: "node \<Rightarrow> (ref \<times> element) list"
  and elemsFrom :: "nat \<Rightarrow> node list \<Rightarrow> (ref \<times> element) list" where
  "elems (Text s) = []"
| "elems (Elem e ks) = ([], e) # elemsFrom 0 ks"
| "elemsFrom i [] = []"
| "elemsFrom i (k # ks) = map (\<lambda>(p, e). (i # p, e)) (elems k) @ elemsFrom (Suc i) ks"

definition querySelectorAll_star :: "page \<Rightarrow> (ref \<times> element) list" where
  "querySelectorAll_star pg = (case documentElement pg of None \<Rightarrow> [] | Some t \<Rightarrow> elems t)"

text \<open>\<^verbatim>\<open>a.contains(b)\<close>: b is a or a descendant of a; false for null.\<close>

definition contains :: "ref \<Rightarrow> ref option \<Rightarrow> bool" where
  "contains a b = (case b of None \<Rightarrow> False | Some r \<Rightarrow> prefix a r)"

definition parentElement :: "ref \<Rightarrow> ref option" where
  "parentElement r = (if r = [] then None else Some (butlast r))"

text \<open>The element at a reference is rewritten in place; nothing else changes.\<close>

fun modify :: "(element \<Rightarrow> element) \<Rightarrow> ref \<Rightarrow> node \<Rightarrow> node" where
  "modify f [] (Elem e ks) = Elem (f e) ks"
| "modify f (i # p) (Elem e ks) =
     (if i < length ks then Elem e (ks[i := modify f p (ks ! i)]) else Elem e ks)"
| "modify f p (Text s) = Text s"

text \<open>\<^verbatim>\<open>parent.appendChild(n)\<close>: the node becomes the last child.\<close>

fun appendChild :: "ref \<Rightarrow> node \<Rightarrow> node \<Rightarrow> node" where
  "appendChild [] n (Elem e ks) = Elem e (ks @ [n])"
| "appendChild (i # p) n (Elem e ks) =
     (if i < length ks then Elem e (ks[i := appendChild p n (ks ! i)]) else Elem e ks)"
| "appendChild p n (Text s) = Text s"

text \<open>
  \<^verbatim>\<open>document.body\<close>: the first child of the html element that is a body or a
  frameset element, null when there is none.
\<close>

fun firstBody :: "nat \<Rightarrow> node list \<Rightarrow> ref option" where
  "firstBody i [] = None"
| "firstBody i (Text s # ks) = firstBody (Suc i) ks"
| "firstBody i (Elem e cs # ks) =
     (if tagName e = ''BODY'' \<or> tagName e = ''FRAMESET'' then Some [i]
      else firstBody (Suc i) ks)"

definition body :: "node \<Rightarrow> ref option" where
  "body t = (case t of
       Elem e ks \<Rightarrow> if tagName e = ''HTML'' then firstBody 0 ks else None
     | Text s \<Rightarrow> None)"

text \<open>\<^verbatim>\<open>node.textContent\<close>: the text of all descendants, in document order.\<close>

fun textContent :: "node \<Rightarrow> string" where
  "textContent (Text s) = s"
| "textContent (Elem e ks) = concat (map textContent ks)"

section \<open>markPage\<close>

definition MAX_ELEMENTS :: nat where
  "MAX_ELEMENTS = 60"

definition MIN_AREA :: real where
  "MIN_AREA = 20"

definition LABEL_FONT_SIZE :: real where
  "LABEL_FONT_SIZE = 16"

definition LABEL_PADDING :: real where
  "LABEL_PADDING = 3"

text \<open>A clipped rectangle of the script, and the record markPage builds per element.\<close>

record rect =
  rect_left :: real
  rect_top :: real
  rect_right :: real
  rect_bottom :: real
  rect_width :: real
  rect_height :: real

record item =
  element :: ref
  rects :: "rect list"
  area :: real
  item_text :: string
  depth :: nat

text \<open>\<^verbatim>\<open>v || 0\<close> on a number.\<close>

definition or0 :: "real \<Rightarrow> real" where
  "or0 v = (if v = 0 then 0 else v)"

definition viewportWidth :: "page \<Rightarrow> element \<Rightarrow> real" where
  "viewportWidth pg html = max (or0 (clientWidth html)) (or0 (innerWidth pg))"

definition viewportHeight :: "page \<Rightarrow> element \<Rightarrow> real" where
  "viewportHeight pg html = max (or0 (clientHeight html)) (or0 (innerHeight pg))"

definition isInteractive :: "element \<Rightarrow> bool" where
  "isInteractive e =
     (tagName e = ''INPUT'' \<or>
      tagName e = ''TEXTAREA'' \<or>
      tagName e = ''SELECT'' \<or>
      tagName e = ''BUTTON'' \<or>
      tagName e = ''A'' \<or>
      tagName e = ''IFRAME'' \<or>
      tagName e = ''VIDEO'' \<or>
      (hasAttribute e ''role'' \<and>
       (case getAttribute e ''role'' of
          None \<Rightarrow> False
        | Some v \<Rightarrow> v \<in> set [''button'', ''link'', ''checkbox'', ''menuitem'', ''tab''])))"

text \<open>The first filter on the client rectangles: the hit test at the centre.\<close>

definition atCenter :: "page \<Rightarrow> ref \<Rightarrow> domrect \<Rightarrow> bool" where
  "atCenter pg el bb =
     (let center_x = bb_left bb + bb_width bb / 2;
          center_y = bb_top bb + bb_height bb / 2;
          elAtCenter = elementFromPoint pg center_x center_y
      in elAtCenter = Some el \<or> contains el elAtCenter)"

text \<open>The two maps: clip to the viewport, then add width and height.\<close>

definition clip :: "real \<Rightarrow> real \<Rightarrow> domrect \<Rightarrow> real \<times> real \<times> real \<times> real" where
  "clip vw vh bb = (max 0 (bb_left bb), max 0 (bb_top bb), min vw (bb_right bb), min vh (bb_bottom bb))"

definition withSize :: "real \<times> real \<times> real \<times> real \<Rightarrow> rect" where
  "withSize c = (case c of (l, t, r, b) \<Rightarrow>
     \<lparr>rect_left = l, rect_top = t, rect_right = r, rect_bottom = b,
      rect_width = r - l, rect_height = b - t\<rparr>)"

definition visibleRects :: "page \<Rightarrow> real \<Rightarrow> real \<Rightarrow> ref \<Rightarrow> element \<Rightarrow> rect list" where
  "visibleRects pg vw vh el e =
     filter (\<lambda>r. rect_width r > 0 \<and> rect_height r > 0)
       (map withSize (map (clip vw vh) (filter (atCenter pg el) (clientRects e))))"

text \<open>
  \<^verbatim>\<open>getDepth\<close>: the loop over \<^verbatim>\<open>current.parentElement\<close>, with the counter and
  the current element as its state.
\<close>

function getDepth_loop :: "nat \<Rightarrow> ref \<Rightarrow> nat" where
  "getDepth_loop d current =
     (case parentElement current of
        None \<Rightarrow> d
      | Some p \<Rightarrow> getDepth_loop (d + 1) p)"
  by pat_completeness auto
termination
  by (relation "measure (\<lambda>(d, current). length current)")
     (auto simp: parentElement_def split: if_splits)

declare getDepth_loop.simps [simp del]

definition getDepth :: "ref \<Rightarrow> nat" where
  "getDepth el = getDepth_loop 0 el"

text \<open>
  The \<^verbatim>\<open>text\<close> of an item: \<^verbatim>\<open>trim()\<close>, then every run of two or more white-space
  characters becomes one blank, then the first 100 characters. The white space of
  \<^verbatim>\<open>trim\<close> and of \<^verbatim>\<open>\s\<close> below code unit 256: tab, line feed, vertical tab, form
  feed, carriage return, space and no-break space.
\<close>

definition isSpace :: "char \<Rightarrow> bool" where
  "isSpace c =
     (c \<in> set [CHR 0x09, CHR 0x0A, CHR 0x0B, CHR 0x0C, CHR 0x0D, CHR 0x20, CHR 0xA0])"

definition trim :: "string \<Rightarrow> string" where
  "trim s = rev (dropWhile isSpace (rev (dropWhile isSpace s)))"

function collapse :: "string \<Rightarrow> string" where
  "collapse [] = []"
| "collapse (c # cs) =
     (if isSpace c \<and> cs \<noteq> [] \<and> isSpace (hd cs)
      then CHR '' '' # collapse (dropWhile isSpace cs)
      else c # collapse cs)"
  by pat_completeness auto
termination
  by (relation "measure length") (auto simp: less_Suc_eq_le length_dropWhile_le)

definition itemText :: "node \<Rightarrow> ref \<Rightarrow> string" where
  "itemText t el =
     (case nodeAt t el of
        None \<Rightarrow> []
      | Some n \<Rightarrow> take 100 (collapse (trim (textContent n))))"

text \<open>The callback of the first \<^verbatim>\<open>map\<close>: null or the item of the element.\<close>

definition candidate :: "page \<Rightarrow> node \<Rightarrow> real \<Rightarrow> real \<Rightarrow> ref \<times> element \<Rightarrow> item option" where
  "candidate pg t vw vh re =
     (case re of (el, e) \<Rightarrow>
        if \<not> isInteractive e then None
        else
          let rs = visibleRects pg vw vh el e in
          if length rs = 0 then None
          else
            let a = foldl (\<lambda>acc r. acc + rect_width r * rect_height r) 0 rs in
            if a < MIN_AREA then None
            else Some \<lparr>element = el, rects = rs, area = a,
                       item_text = itemText t el, depth = getDepth el\<rparr>)"

definition scan :: "page \<Rightarrow> node \<Rightarrow> real \<Rightarrow> real \<Rightarrow> item list" where
  "scan pg t vw vh = List.map_filter (candidate pg t vw vh) (elems t)"

text \<open>Remove nested elements: the filter reads the list as it was before the filter.\<close>

definition removeNested :: "item list \<Rightarrow> item list" where
  "removeNested items =
     filter (\<lambda>x. \<not> list_ex (\<lambda>y. contains (element y) (Some (element x)) \<and> element x \<noteq> element y) items)
       items"

text \<open>
  The comparator handed to \<^verbatim>\<open>sort\<close>, and \<^verbatim>\<open>Array.prototype.sort\<close> itself: a
  stable sort, here by insertion, that puts a before b when the comparator is not
  positive.
\<close>

definition compareItems :: "item \<Rightarrow> item \<Rightarrow> real" where
  "compareItems a b =
     (if depth a \<noteq> depth b then real (depth a) - real (depth b)
      else area b - area a)"

fun insertBy :: "('a \<Rightarrow> 'a \<Rightarrow> real) \<Rightarrow> 'a \<Rightarrow> 'a list \<Rightarrow> 'a list" where
  "insertBy cmp a [] = [a]"
| "insertBy cmp a (b # bs) = (if cmp a b \<le> 0 then a # b # bs else b # insertBy cmp a bs)"

definition sortBy :: "('a \<Rightarrow> 'a \<Rightarrow> real) \<Rightarrow> 'a list \<Rightarrow> 'a list" where
  "sortBy cmp as = foldr (insertBy cmp) as []"

definition prioritize :: "item list \<Rightarrow> item list" where
  "prioritize items =
     (if length items > MAX_ELEMENTS then take MAX_ELEMENTS (sortBy compareItems items)
      else items)"

definition selectItems :: "page \<Rightarrow> node \<Rightarrow> item list" where
  "selectItems pg t =
     (case t of
        Text s \<Rightarrow> []
      | Elem html ks \<Rightarrow>
          prioritize (removeNested (scan pg t (viewportWidth pg html) (viewportHeight pg html))))"

subsection \<open>Annotation\<close>

text \<open>
  \<^verbatim>\<open>document.createElement(tag)\<close>. The layout of the nodes the script creates is not
  modelled (no client rectangles, client size 0): neither script reads it, since a div
  or span without a role is never interactive.
\<close>

definition createElement :: "string \<Rightarrow> element" where
  "createElement tag =
     \<lparr>tagName = tag, attributes = [], clientRects = [], clientWidth = 0, clientHeight = 0,
      style = []\<rparr>"

text \<open>The vertical offset of the label inside its container.\<close>

definition labelTop :: "rect \<Rightarrow> real" where
  "labelTop bbox =
     (let labelHeight = 20 in
      if rect_top bbox < labelHeight then rect_height bbox + 2 else - labelHeight)"

definition containerStyle :: "rect \<Rightarrow> (string \<times> cssval) list" where
  "containerStyle bbox =
     [(''outline'', Lit ''2px dashed #000''),
      (''position'', Lit ''fixed''),
      (''left'', Px (rect_left bbox)),
      (''top'', Px (rect_top bbox)),
      (''width'', Px (rect_width bbox)),
      (''height'', Px (rect_height bbox)),
      (''pointer-events'', Lit ''none''),
      (''box-sizing'', Lit ''border-box''),
      (''z-index'', Lit ''2147483647'')]"

definition labelStyle :: "rect \<Rightarrow> (string \<times> cssval) list" where
  "labelStyle bbox =
     (let labelLeft = 0 in
      [(''position'', Lit ''absolute''),
       (''top'', Px (labelTop bbox)),
       (''left'', Px labelLeft),
       (''background'', Lit ''#000''),
       (''color'', Lit ''#fff''),
       (''padding'', Px LABEL_PADDING),
       (''font-size'', Px LABEL_FONT_SIZE),
       (''font-family'', Lit ''Arial, sans-serif''),
       (''font-weight'', Lit ''bold''),
       (''border-radius'', Lit ''3px''),
       (''line-height'', Lit ''1''),
       (''white-space'', Lit ''nowrap''),
       (''box-shadow'', Lit ''0 2px 4px rgba(0,0,0,0.3)'')])"

text \<open>The container built for one rectangle, with its label inside.\<close>

definition overlay :: "nat \<Rightarrow> rect \<Rightarrow> node" where
  "overlay index bbox =
     (let container = (createElement ''DIV'')\<lparr>style := containerStyle bbox\<rparr>;
          label = Elem ((createElement ''SPAN'')\<lparr>style := labelStyle bbox\<rparr>)
                    [Text (decimal index)]
      in Elem (setAttribute ''data-voyager-rect-index'' (decimal index) container) [label])"

text \<open>
  The two loops. A loop returns the error it stopped at, if any, and the document as
  it then is: \<^verbatim>\<open>document.body.appendChild\<close> raises a TypeError when the document has
  no body.
\<close>

fun rectsForEach :: "nat \<Rightarrow> rect list \<Rightarrow> node \<Rightarrow> error option \<times> node" where
  "rectsForEach index [] t = (None, t)"
| "rectsForEach index (bbox # bs) t =
     (case body t of
        None \<Rightarrow> (Some TypeError, t)
      | Some b \<Rightarrow> rectsForEach index bs (appendChild b (overlay index bbox) t))"

fun itemsForEach :: "nat \<Rightarrow> item list \<Rightarrow> node \<Rightarrow> error option \<times> node" where
  "itemsForEach index [] t = (None, t)"
| "itemsForEach index (it # its) t =
     (case rectsForEach index (rects it)
             (modify (setAttribute ''data-voyager-element-index'' (decimal index)) (element it) t) of
        (Some err, t') \<Rightarrow> (Some err, t')
      | (None, t') \<Rightarrow> itemsForEach (index + 1) its t')"

text \<open>
  markPage: the value it returns, or the error it raises, and the page it leaves.
  Reading \<^verbatim>\<open>document.documentElement.clientWidth\<close> raises a TypeError on a
  document without a document element.
\<close>

definition markPage :: "page \<Rightarrow> (error + nat list) \<times> page" where
  "markPage pg =
     (case documentElement pg of
        None \<Rightarrow> (Inl TypeError, pg)
      | Some t \<Rightarrow>
          let items = selectItems pg t in
          case itemsForEach 0 items t of
            (Some err, t') \<Rightarrow> (Inl err, pg\<lparr>documentElement := Some t'\<rparr>)
          | (None, t') \<Rightarrow> (Inr [0..<length items], pg\<lparr>documentElement := Some t'\<rparr>))"

section \<open>The cleanup scripts\<close>

definition carries :: "string \<Rightarrow> node \<Rightarrow> bool" where
  "carries k n = (case n of Elem e ks \<Rightarrow> hasAttribute e k | Text s \<Rightarrow> False)"

text \<open>
  \<^verbatim>\<open>querySelectorAll("[k]").forEach((el) => el.remove())\<close>: every element with the
  attribute leaves the document, with its subtree.
\<close>

fun prune :: "string \<Rightarrow> node \<Rightarrow> node" where
  "prune k (Text s) = Text s"
| "prune k (Elem e ks) = Elem e (map (prune k) (filter (\<lambda>n. \<not> carries k n) ks))"

definition removeAll :: "string \<Rightarrow> page \<Rightarrow> page" where
  "removeAll k pg =
     (case documentElement pg of
        None \<Rightarrow> pg
      | Some t \<Rightarrow>
          if carries k t then pg\<lparr>documentElement := None\<rparr>
          else pg\<lparr>documentElement := Some (prune k t)\<rparr>)"

text \<open>
  \<^verbatim>\<open>querySelectorAll("[sel]").forEach((el) => el.removeAttribute(k))\<close>.
\<close>

fun stripNode :: "string \<Rightarrow> string \<Rightarrow> node \<Rightarrow> node" where
  "stripNode sel k (Text s) = Text s"
| "stripNode sel k (Elem e ks) =
     Elem (if hasAttribute e sel then removeAttribute k e else e) (map (stripNode sel k) ks)"

definition stripAll :: "string \<Rightarrow> string \<Rightarrow> page \<Rightarrow> page" where
  "stripAll sel k pg = pg\<lparr>documentElement := map_option (stripNode sel k) (documentElement pg)\<rparr>"

definition clearRectsAndTags :: "page \<Rightarrow> page" where
  "clearRectsAndTags pg =
     stripAll ''date-voyager-element-index'' ''data-voyager-element-index''
       (removeAll ''data-voyager-rect-index'' pg)"

definition clearElements :: "page \<Rightarrow> page" where
  "clearElements pg =
     stripAll ''data-voyager-element-index'' ''data-voyager-element-index'' pg"

text \<open>The elements that carry an attribute, in document order.\<close>

definition withAttribute :: "string \<Rightarrow> page \<Rightarrow> ref list" where
  "withAttribute k pg = map fst (filter (\<lambda>re. hasAttribute (snd re) k) (querySelectorAll_star pg))"

section \<open>Auxiliary definitions for the proofs\<close>

text \<open>
  None of the following is in the scripts. They name what the proofs talk about: the
  inverse of \<^const>\<open>decimal\<close>, the number of children of an element, the two effects
  of the annotation loop taken apart (all attributes set, all overlays appended), and
  the sort key the comparator of markPage implements.
\<close>

definition digitValue :: "char \<Rightarrow> nat" where
  "digitValue c = of_char c - 48"

definition readDecimal :: "string \<Rightarrow> nat" where
  "readDecimal s = foldl (\<lambda>acc c. 10 * acc + digitValue c) 0 s"

definition childCount :: "node \<Rightarrow> ref \<Rightarrow> nat" where
  "childCount t p = (case childNodes t p of None \<Rightarrow> 0 | Some ks \<Rightarrow> length ks)"

fun tagAll :: "nat \<Rightarrow> item list \<Rightarrow> node \<Rightarrow> node" where
  "tagAll i [] t = t"
| "tagAll i (it # its) t =
     tagAll (i + 1) its (modify (setAttribute ''data-voyager-element-index'' (decimal i)) (element it) t)"

fun overlaysFrom :: "nat \<Rightarrow> item list \<Rightarrow> node list" where
  "overlaysFrom i [] = []"
| "overlaysFrom i (it # its) = map (overlay i) (rects it) @ overlaysFrom (i + 1) its"

fun appendAll :: "ref \<Rightarrow> node list \<Rightarrow> node \<Rightarrow> node" where
  "appendAll b [] t = t"
| "appendAll b (n # ns) t = appendAll b ns (appendChild b n t)"

definition nodeTag :: "node \<Rightarrow> string option" where
  "nodeTag n = (case n of Elem e ks \<Rightarrow> Some (tagName e) | Text s \<Rightarrow> None)"

definition rank :: "item \<Rightarrow> nat \<times> real" where
  "rank c = (depth c, - area c)"

text \<open>
  The items markPage annotates on a page, in index order; the candidates before the
  nested ones are removed; and the element at a reference of a page.
\<close>

definition selected :: "page \<Rightarrow> item list" where
  "selected pg = (case documentElement pg of None \<Rightarrow> [] | Some t \<Rightarrow> selectItems pg t)"

definition candidates :: "page \<Rightarrow> item list" where
  "candidates pg =
     (case documentElement pg of
        Some (Elem html ks) \<Rightarrow>
          scan pg (Elem html ks) (viewportWidth pg html) (viewportHeight pg html)
      | _ \<Rightarrow> [])"

definition elementOf :: "page \<Rightarrow> ref \<Rightarrow> element option" where
  "elementOf pg p = (case documentElement pg of None \<Rightarrow> None | Some t \<Rightarrow> elementAt t p)"

section \<open>Example pages\<close>

text \<open>
  A page of 800 by 600 pixels with a button near the top and, further down, a link that
  starts left of the viewport and wraps a span with the role of a button.
\<close>

definition exampleTree :: node where
  "exampleTree =
     Elem \<lparr>tagName = ''HTML'', attributes = [], clientRects = [],
           clientWidth = 800, clientHeight = 600, style = []\<rparr>
       [Elem (createElement ''HEAD'') [],
        Elem (createElement ''BODY'')
          [Elem \<lparr>tagName = ''BUTTON'', attributes = [],
                 clientRects = [\<lparr>bb_left = 10, bb_top = 10, bb_right = 110, bb_bottom = 50, bb_width = 100, bb_height = 40\<rparr>],
                 clientWidth = 100, clientHeight = 40, style = []\<rparr>
             [Text ''OK''],
           Elem \<lparr>tagName = ''A'', attributes = [(''href'', ''/next'')],
                 clientRects = [\<lparr>bb_left = - 50, bb_top = 100, bb_right = 210, bb_bottom = 130, bb_width = 260, bb_height = 30\<rparr>],
                 clientWidth = 0, clientHeight = 0, style = []\<rparr>
             [Elem \<lparr>tagName = ''SPAN'', attributes = [(''role'', ''button'')],
                   clientRects = [\<lparr>bb_left = 20, bb_top = 105, bb_right = 70, bb_bottom = 125, bb_width = 50, bb_height = 20\<rparr>],
                   clientWidth = 0, clientHeight = 0, style = []\<rparr>
               [Text ''Go'']]]]"

definition examplePage :: page where
  "examplePage =
     \<lparr>documentElement = Some exampleTree, innerWidth = 800, innerHeight = 600,
      elementFromPoint = (\<lambda>px py.
        if px < 0 \<or> 800 \<le> px \<or> py < 0 \<or> 600 \<le> py then None
        else if 20 \<le> px \<and> px < 70 \<and> 105 \<le> py \<and> py < 125 then Some [1, 1, 0]
        else if px < 210 \<and> 100 \<le> py \<and> py < 130 then Some [1, 1]
        else if 10 \<le> px \<and> px < 110 \<and> 10 \<le> py \<and> py < 50 then Some [1, 0]
        else Some [1])\<rparr>"

text \<open>
  A page whose only button starts 300 pixels left of the viewport: its centre is off
  screen, its right quarter is visible.
\<close>

definition offscreenButton :: element where
  "offscreenButton =
     \<lparr>tagName = ''BUTTON'', attributes = [],
      clientRects = [\<lparr>bb_left = - 300, bb_top = 10, bb_right = 100, bb_bottom = 50, bb_width = 400, bb_height = 40\<rparr>],
      clientWidth = 400, clientHeight = 40, style = []\<rparr>"

definition offscreenHtml :: element where
  "offscreenHtml =
     \<lparr>tagName = ''HTML'', attributes = [], clientRects = [],
      clientWidth = 800, clientHeight = 600, style = []\<rparr>"

definition offscreenPage :: page where
  "offscreenPage =
     \<lparr>documentElement = Some
        (Elem offscreenHtml
           [Elem (createElement ''HEAD'') [],
            Elem (createElement ''BODY'') [Elem offscreenButton [Text ''Menu'']]]),
      innerWidth = 800, innerHeight = 600,
      elementFromPoint = (\<lambda>px py.
        if px < 0 \<or> 800 < px \<or> py < 0 \<or> 600 < py then None
        else if px < 100 \<and> 10 \<le> py \<and> py < 50 then Some [1, 0]
        else Some [1])\<rparr>"

text \<open>
  A page marked once before: its second button still carries the index 0 of that call
  and now lies under a dialog; only the first button is on top at its centre.
\<close>

definition stalePage :: page where
  "stalePage =
     \<lparr>documentElement = Some
        (Elem \<lparr>tagName = ''HTML'', attributes = [], clientRects = [],
               clientWidth = 800, clientHeight = 600, style = []\<rparr>
           [Elem (createElement ''HEAD'') [],
            Elem (createElement ''BODY'')
              [Elem \<lparr>tagName = ''BUTTON'', attributes = [],
                     clientRects = [\<lparr>bb_left = 10, bb_top = 10, bb_right = 110, bb_bottom = 50,
                                     bb_width = 100, bb_height = 40\<rparr>],
                     clientWidth = 100, clientHeight = 40, style = []\<rparr>
                 [Text ''Open''],
               Elem \<lparr>tagName = ''BUTTON'',
                     attributes = [(''data-voyager-element-index'', ''0'')],
                     clientRects = [\<lparr>bb_left = 10, bb_top = 100, bb_right = 110, bb_bottom = 140,
                                     bb_width = 100, bb_height = 40\<rparr>],
                     clientWidth = 100, clientHeight = 40, style = []\<rparr>
                 [Text ''Save''],
               Elem \<lparr>tagName = ''DIV'', attributes = [],
                     clientRects = [\<lparr>bb_left = 0, bb_top = 80, bb_right = 800, bb_bottom = 480,
                                     bb_width = 800, bb_height = 400\<rparr>],
                     clientWidth = 800, clientHeight = 400, style = []\<rparr>
                 [Text ''Dialog'']]]),
      innerWidth = 800, innerHeight = 600,
      elementFromPoint = (\<lambda>px py.
        if px < 0 \<or> 800 < px \<or> py < 0 \<or> 600 < py then None
        else if 80 \<le> py \<and> py < 480 then Some [1, 2]
        else if 10 \<le> px \<and> px < 110 \<and> 10 \<le> py \<and> py < 50 then Some [1, 0]
        else Some [1])\<rparr>"

text \<open>
  Sixty-one items at depth 2, as a row of small buttons under the body would give them,
  with five different areas.
\<close>

definition crowd :: "item list" where
  "crowd =
     map (\<lambda>i. \<lparr>element = [1, i],
               rects = [\<lparr>rect_left = 12 * real i, rect_top = 100,
                         rect_right = 12 * real i + 10, rect_bottom = 110 + real (i mod 5),
                         rect_width = 10, rect_height = 10 + real (i mod 5)\<rparr>],
               area = 10 * (10 + real (i mod 5)), item_text = [], depth = 2\<rparr>)
       [0..<61]"

section \<open>Lemmas\<close>

subsection \<open>Depth, decimal strings and the element list\<close>

lemma getDepth_loop_eq: "getDepth_loop d p = d + length p"
proof (induction d p rule: getDepth_loop.induct)
  case (1 d current)
  show ?case
  proof (cases "current = []")
    case True
    then show ?thesis by (simp add: getDepth_loop.simps parentElement_def)
  next
    case False
    then have "getDepth_loop d current = getDepth_loop (d + 1) (butlast current)"
      by (subst getDepth_loop.simps) (simp add: parentElement_def)
    also have "\<dots> = d + 1 + length (butlast current)"
      using 1 False by (simp add: parentElement_def)
    finally show ?thesis using False by (cases current rule: rev_cases) auto
  qed
qed

lemma getDepth_eq: "getDepth el = length el"
  by (simp add: getDepth_def getDepth_loop_eq)

lemma digitValue_digit: "d < 10 \<Longrightarrow> digitValue (digit d) = d"
  by (simp add: digitValue_def digit_def)

lemma readDecimal_decimal: "readDecimal (decimal n) = n"
proof (induction n rule: decimal.induct)
  case (1 n)
  show ?case
  proof (cases "n < 10")
    case True
    then show ?thesis
      by (subst decimal.simps) (simp add: readDecimal_def digitValue_digit)
  next
    case False
    then have "readDecimal (decimal n) = 10 * readDecimal (decimal (n div 10)) + digitValue (digit (n mod 10))"
      by (subst decimal.simps) (simp add: readDecimal_def)
    with 1 False show ?thesis by (simp add: digitValue_digit)
  qed
qed

lemma decimal_inj: "decimal m = decimal n \<Longrightarrow> m = n"
  by (metis readDecimal_decimal)

lemma elems_member:
  "((p, e) \<in> set (elems t)) = (elementAt t p = Some e)"
  "((p, e) \<in> set (elemsFrom i ks)) =
     (\<exists>j q. p = (i + j) # q \<and> j < length ks \<and> elementAt (ks ! j) q = Some e)"
proof (induction t and i ks arbitrary: p e and p e rule: elems_elemsFrom.induct)
  case (1 s)
  show ?case by (cases p) (simp_all add: elementAt_def)
next
  case (2 e' ks)
  show ?case
  proof (cases p)
    case Nil
    then show ?thesis using 2 by (auto simp: elementAt_def)
  next
    case (Cons j q)
    then show ?thesis using 2 by (auto simp: elementAt_def)
  qed
next
  case (3 i)
  show ?case by simp
next
  case (4 i k ks)
  have "((p, e) \<in> set (elemsFrom i (k # ks))) =
        ((\<exists>q. p = i # q \<and> (q, e) \<in> set (elems k)) \<or> (p, e) \<in> set (elemsFrom (Suc i) ks))"
    by auto
  also have "\<dots> = ((\<exists>q. p = i # q \<and> elementAt k q = Some e) \<or>
        (\<exists>j q. p = (Suc i + j) # q \<and> j < length ks \<and> elementAt (ks ! j) q = Some e))"
    using 4 by simp
  also have "\<dots> = (\<exists>j q. p = (i + j) # q \<and> j < length (k # ks) \<and> elementAt ((k # ks) ! j) q = Some e)"
    (is "?L = ?R")
  proof
    assume ?L
    then show ?R
    proof
      assume "\<exists>q. p = i # q \<and> elementAt k q = Some e"
      then obtain q where "p = (i + 0) # q" "elementAt ((k # ks) ! 0) q = Some e" by auto
      then show ?R by (intro exI[of _ 0]) auto
    next
      assume "\<exists>j q. p = (Suc i + j) # q \<and> j < length ks \<and> elementAt (ks ! j) q = Some e"
      then obtain j q where "p = (i + Suc j) # q" "Suc j < length (k # ks)"
        "elementAt ((k # ks) ! Suc j) q = Some e" by auto
      then show ?R by blast
    qed
  next
    assume ?R
    then obtain j q where jq: "p = (i + j) # q" "j < length (k # ks)"
      "elementAt ((k # ks) ! j) q = Some e" by blast
    show ?L
    proof (cases j)
      case 0
      then show ?thesis using jq by simp
    next
      case (Suc j')
      then show ?thesis using jq by auto
    qed
  qed
  finally show ?case .
qed

lemma elems_distinct:
  "distinct (map fst (elems t))"
  "distinct (map fst (elemsFrom i ks))"
proof (induction t and i ks rule: elems_elemsFrom.induct)
  case (1 s)
  show ?case by simp
next
  case (2 e ks)
  have "[] \<notin> fst ` set (elemsFrom 0 ks)"
    using elems_member(2)[of "[]" _ 0 ks] by auto
  then show ?case using 2 by simp
next
  case (3 i)
  show ?case by simp
next
  case (4 i k ks)
  have a: "distinct (map fst (map (\<lambda>(p, e). (i # p, e)) (elems k)))"
    using 4(1) by (simp add: distinct_map comp_def case_prod_beta inj_on_def)
  have b: "fst ` set (map (\<lambda>(p, e). (i # p, e)) (elems k)) \<inter> fst ` set (elemsFrom (Suc i) ks) = {}"
    using elems_member(2)[of _ _ "Suc i" ks] by fastforce
  show ?case using a b 4(2) by (simp add: image_image)
qed

subsection \<open>The node at a reference after an update\<close>

lemma elementAt_simps [simp]:
  "elementAt (Elem e ks) [] = Some e"
  "elementAt (Text s) p = None"
  "elementAt (Elem e ks) (i # p) = (if i < length ks then elementAt (ks ! i) p else None)"
  by (cases p; simp add: elementAt_def)+

lemma childCount_simps [simp]:
  "childCount (Elem e ks) [] = length ks"
  "childCount (Text s) p = 0"
  "childCount (Elem e ks) (i # p) = (if i < length ks then childCount (ks ! i) p else 0)"
  by (cases p; simp add: childCount_def childNodes_def)+

lemma nodeAt_Text [simp]: "nodeAt (Text s) p = (if p = [] then Some (Text s) else None)"
  by (cases p) simp_all

lemma nodeAt_modify:
  "nodeAt (modify f p t) q =
     (if prefix q p then map_option (modify f (drop (length q) p)) (nodeAt t q) else nodeAt t q)"
proof (induction q arbitrary: p t)
  case Nil
  show ?case by simp
next
  case (Cons i q)
  show ?case
  proof (cases t)
    case (Text s)
    then show ?thesis by simp
  next
    case (Elem e ks)
    show ?thesis
    proof (cases p)
      case Nil
      then show ?thesis using Elem by simp
    next
      case (Cons j p')
      then show ?thesis using Elem Cons.IH[of p' "ks ! j"]
        by (auto simp: nth_list_update)
    qed
  qed
qed

lemma appendChild_invalid: "elementAt t b = None \<Longrightarrow> appendChild b n t = t"
proof (induction b arbitrary: t)
  case Nil
  then show ?case by (cases t) simp_all
next
  case (Cons j b)
  then show ?case by (cases t) (auto simp: list_update_same_conv)
qed

lemma nodeAt_appendChild:
  "elementAt t b \<noteq> None \<Longrightarrow>
   nodeAt (appendChild b n t) q =
     (if prefix q b then map_option (appendChild (drop (length q) b) n) (nodeAt t q)
      else if prefix (b @ [childCount t b]) q then nodeAt n (drop (Suc (length b)) q)
      else nodeAt t q)"
proof (induction b arbitrary: q t)
  case Nil
  then obtain e ks where t: "t = Elem e ks" by (cases t) auto
  show ?case
  proof (cases q)
    case Nil
    then show ?thesis using t by simp
  next
    case (Cons i q')
    then show ?thesis using t by (auto simp: nth_append)
  qed
next
  case (Cons j b)
  then obtain e ks where t: "t = Elem e ks" by (cases t) auto
  with Cons.prems have j: "j < length ks" and v: "elementAt (ks ! j) b \<noteq> None"
    by (auto split: if_splits)
  show ?case
  proof (cases q)
    case Nil
    then show ?thesis using t by simp
  next
    case (Cons i q')
    then show ?thesis using t j Cons.IH[OF v, of q']
      by (auto simp: nth_list_update)
  qed
qed

subsection \<open>Elements, children and text after an update\<close>

lemma appendChild_root:
  "appendChild r n (Text s) = Text s"
  "\<exists>ks'. appendChild r n (Elem e ks) = Elem e ks'"
  by (cases r; simp)+

lemma elementAt_modify:
  "elementAt (modify f p t) q = (if q = p then map_option f (elementAt t q) else elementAt t q)"
proof (induction q arbitrary: p t)
  case Nil
  show ?case by (cases t; cases p) auto
next
  case (Cons i q)
  show ?case
  proof (cases t)
    case (Text s)
    then show ?thesis by simp
  next
    case (Elem e ks)
    show ?thesis
    proof (cases p)
      case Nil
      then show ?thesis using Elem by simp
    next
      case (Cons j p')
      then show ?thesis using Elem Cons.IH[of p' "ks ! j"]
        by (auto simp: nth_list_update)
    qed
  qed
qed

lemma childCount_modify: "childCount (modify f p t) q = childCount t q"
proof (induction q arbitrary: p t)
  case Nil
  show ?case by (cases t; cases p) auto
next
  case (Cons i q)
  show ?case
  proof (cases t)
    case (Text s)
    then show ?thesis by simp
  next
    case (Elem e ks)
    show ?thesis
    proof (cases p)
      case Nil
      then show ?thesis using Elem by simp
    next
      case (Cons j p')
      then show ?thesis using Elem Cons.IH[of p' "ks ! j"]
        by (auto simp: nth_list_update)
    qed
  qed
qed

lemma valid_modify: "(nodeAt (modify f p t) q = None) = (nodeAt t q = None)"
  by (simp add: nodeAt_modify)

lemma text_modify: "nodeAt t q = Some (Text s) \<Longrightarrow> nodeAt (modify f p t) q = Some (Text s)"
  by (simp add: nodeAt_modify)

lemma valid_prefix: "nodeAt t (p @ q) \<noteq> None \<Longrightarrow> nodeAt t p \<noteq> None"
proof (induction p arbitrary: t)
  case Nil
  show ?case by simp
next
  case (Cons i p)
  then show ?case by (cases t) (auto split: if_splits)
qed

lemma valid_child: "nodeAt t (p @ [i]) \<noteq> None \<Longrightarrow> i < childCount t p"
proof (induction p arbitrary: t)
  case Nil
  then show ?case by (cases t) (auto split: if_splits)
next
  case (Cons j p)
  then show ?case by (cases t) (auto split: if_splits)
qed

lemma old_not_under_new:
  assumes "nodeAt t q \<noteq> None"
  shows "\<not> prefix (b @ [childCount t b]) q"
proof
  assume "prefix (b @ [childCount t b]) q"
  then obtain r where "q = (b @ [childCount t b]) @ r" by (auto simp: prefix_def)
  with assms have "nodeAt t (b @ [childCount t b]) \<noteq> None" using valid_prefix by blast
  then show False using valid_child by blast
qed

lemma elementAt_appendChild:
  assumes "nodeAt t q \<noteq> None"
  shows "elementAt (appendChild b n t) q = elementAt t q"
proof (cases "elementAt t b = None")
  case True
  then show ?thesis by (simp add: appendChild_invalid)
next
  case False
  obtain m where m: "nodeAt t q = Some m" using assms by auto
  show ?thesis
  proof (cases m)
    case (Text s)
    then show ?thesis
      using nodeAt_appendChild[OF False, of n q] old_not_under_new[OF assms, of b] m
        appendChild_root(1)
      by (auto simp: elementAt_def)
  next
    case (Elem e ks)
    obtain ks' where "appendChild (drop (length q) b) n (Elem e ks) = Elem e ks'"
      using appendChild_root(2) by blast
    then show ?thesis
      using nodeAt_appendChild[OF False, of n q] old_not_under_new[OF assms, of b] m Elem
      by (auto simp: elementAt_def)
  qed
qed

lemma valid_appendChild:
  assumes "nodeAt t q \<noteq> None"
  shows "nodeAt (appendChild b n t) q \<noteq> None"
proof (cases "elementAt t b = None")
  case True
  then show ?thesis using assms by (simp add: appendChild_invalid)
next
  case False
  show ?thesis
    using nodeAt_appendChild[OF False, of n q] old_not_under_new[OF assms, of b] assms
    by auto
qed

lemma text_appendChild:
  assumes "nodeAt t q = Some (Text s)"
  shows "nodeAt (appendChild b n t) q = Some (Text s)"
proof (cases "elementAt t b = None")
  case True
  then show ?thesis using assms by (simp add: appendChild_invalid)
next
  case False
  have "nodeAt t q \<noteq> None" using assms by simp
  from old_not_under_new[OF this, of b] show ?thesis
    using nodeAt_appendChild[OF False, of n q] assms appendChild_root(1) by auto
qed

lemma childCount_appendChild:
  assumes "nodeAt t q \<noteq> None" "elementAt t b \<noteq> None"
  shows "childCount (appendChild b n t) q = childCount t q + (if q = b then 1 else 0)"
  using assms
proof (induction b arbitrary: q t)
  case Nil
  then obtain e ks where t: "t = Elem e ks" by (cases t) auto
  show ?case
  proof (cases q)
    case Nil
    then show ?thesis using t by simp
  next
    case (Cons i q')
    then show ?thesis using t Nil.prems by (auto simp: nth_append split: if_splits)
  qed
next
  case (Cons j b)
  then obtain e ks where t: "t = Elem e ks" by (cases t) auto
  with Cons.prems have j: "j < length ks" and v: "elementAt (ks ! j) b \<noteq> None"
    by (auto split: if_splits)
  show ?case
  proof (cases q)
    case Nil
    then show ?thesis using t by simp
  next
    case (Cons i q')
    then show ?thesis using t j Cons.IH[OF _ v, of q'] Cons.prems(1)
      by (auto simp: nth_list_update split: if_splits)
  qed
qed

lemma new_child_appendChild:
  "elementAt t b \<noteq> None \<Longrightarrow> nodeAt (appendChild b n t) (b @ [childCount t b]) = Some n"
  by (simp add: nodeAt_appendChild)

lemma keep_appendChild:
  assumes "nodeAt t q \<noteq> None" "\<not> prefix q b"
  shows "nodeAt (appendChild b n t) q = nodeAt t q"
proof (cases "elementAt t b = None")
  case True
  then show ?thesis by (simp add: appendChild_invalid)
next
  case False
  show ?thesis
    using nodeAt_appendChild[OF False, of n q] old_not_under_new[OF assms(1), of b] assms(2)
    by simp
qed

lemma modify_appendChild:
  assumes "nodeAt t p \<noteq> None"
  shows "modify f p (appendChild b n t) = appendChild b n (modify f p t)"
  using assms
proof (induction b arbitrary: p t)
  case Nil
  show ?case
  proof (cases t)
    case (Text s)
    then show ?thesis by simp
  next
    case (Elem e ks)
    show ?thesis
    proof (cases p)
      case Nil
      then show ?thesis using Elem by simp
    next
      case (Cons i p')
      then show ?thesis using Elem Nil.prems
        by (auto simp: nth_append list_update_append split: if_splits)
    qed
  qed
next
  case (Cons j b)
  show ?case
  proof (cases t)
    case (Text s)
    then show ?thesis by simp
  next
    case (Elem e ks)
    show ?thesis
    proof (cases p)
      case Nil
      then show ?thesis using Elem by simp
    next
      case (Cons i p')
      show ?thesis
      proof (cases "i = j")
        case True
        then show ?thesis using Elem Cons Cons.IH[of "ks ! j" p'] Cons.prems
          by (auto split: if_splits)
      next
        case False
        then show ?thesis using Elem Cons
          by (auto simp: list_update_swap[of i j])
      qed
    qed
  qed
qed

subsection \<open>The annotation loop in closed form\<close>

lemma firstBody_cong:
  "map nodeTag ks = map nodeTag ks' \<Longrightarrow> firstBody i ks = firstBody i ks'"
proof (induction i ks arbitrary: ks' rule: firstBody.induct)
  case (1 i)
  then show ?case by simp
next
  case (2 i s ks)
  then obtain k' ks'' where k: "ks' = k' # ks''" by (cases ks') auto
  with 2 obtain s' where "k' = Text s'" by (cases k') (auto simp: nodeTag_def)
  with 2 k show ?case by simp
next
  case (3 i e cs ks)
  then obtain k' ks'' where k: "ks' = k' # ks''" by (cases ks') auto
  with 3 obtain e' cs' where "k' = Elem e' cs'" "tagName e' = tagName e"
    by (cases k') (auto simp: nodeTag_def)
  with 3 k show ?case by auto
qed

lemma map_nodeTag_update:
  assumes "nodeTag n = nodeTag (ks ! i)"
  shows "map nodeTag (ks[i := n]) = map nodeTag ks"
proof (cases "i < length ks")
  case True
  have "map nodeTag (ks[i := n]) = (map nodeTag ks)[i := map nodeTag ks ! i]"
    using True assms by (simp add: map_update)
  then show ?thesis by simp
next
  case False
  then have "ks[i := n] = ks" by (simp add: not_less list_update_beyond)
  then show ?thesis by simp
qed

lemma nodeTag_modify: "(\<And>e. tagName (f e) = tagName e) \<Longrightarrow> nodeTag (modify f p n) = nodeTag n"
  by (cases n; cases p) (auto simp: nodeTag_def)

lemma nodeTag_appendChild: "nodeTag (appendChild p m n) = nodeTag n"
  by (cases n; cases p) (auto simp: nodeTag_def)

lemma body_modify:
  assumes "\<And>e. tagName (f e) = tagName e"
  shows "body (modify f p t) = body t"
proof (cases t)
  case (Text s)
  then show ?thesis by simp
next
  case (Elem e ks)
  show ?thesis
  proof (cases p)
    case Nil
    then show ?thesis using Elem assms by (simp add: body_def)
  next
    case (Cons i p')
    have "map nodeTag (ks[i := modify f p' (ks ! i)]) = map nodeTag ks"
      by (rule map_nodeTag_update) (rule nodeTag_modify[OF assms])
    then have "firstBody 0 (ks[i := modify f p' (ks ! i)]) = firstBody 0 ks"
      by (rule firstBody_cong)
    then show ?thesis using Elem Cons by (simp add: body_def)
  qed
qed

lemma firstBody_range:
  "firstBody i ks = Some b \<Longrightarrow> \<exists>j. b = [i + j] \<and> j < length ks \<and> elementAt (ks ! j) [] \<noteq> None"
proof (induction i ks rule: firstBody.induct)
  case (1 i)
  then show ?case by simp
next
  case (2 i s ks)
  then obtain j where "b = [Suc i + j]" "j < length ks" "elementAt (ks ! j) [] \<noteq> None" by auto
  then show ?case by (intro exI[of _ "Suc j"]) auto
next
  case (3 i e cs ks)
  show ?case
  proof (cases "tagName e = ''BODY'' \<or> tagName e = ''FRAMESET''")
    case True
    with 3 show ?thesis by (intro exI[of _ 0]) auto
  next
    case False
    with 3 obtain j where "b = [Suc i + j]" "j < length ks" "elementAt (ks ! j) [] \<noteq> None" by auto
    then show ?thesis by (intro exI[of _ "Suc j"]) auto
  qed
qed

lemma body_range:
  assumes "body t = Some b"
  shows "\<exists>e ks j. t = Elem e ks \<and> b = [j] \<and> j < length ks \<and> elementAt t b \<noteq> None"
proof -
  from assms obtain e ks where t: "t = Elem e ks" and f: "firstBody 0 ks = Some b"
    by (cases t) (auto simp: body_def split: if_splits)
  from firstBody_range[OF f] show ?thesis using t by auto
qed

lemma body_valid: "body t = Some b \<Longrightarrow> elementAt t b \<noteq> None"
  using body_range by blast

lemma body_appendChild:
  assumes "body t = Some b"
  shows "body (appendChild b n t) = Some b"
proof -
  from body_range[OF assms] obtain e ks j where
    t: "t = Elem e ks" and b: "b = [j]" and j: "j < length ks" by blast
  have "map nodeTag (ks[j := appendChild [] n (ks ! j)]) = map nodeTag ks"
    by (rule map_nodeTag_update) (rule nodeTag_appendChild)
  then have "firstBody 0 (ks[j := appendChild [] n (ks ! j)]) = firstBody 0 ks"
    by (rule firstBody_cong)
  then show ?thesis using assms t b j by (auto simp: body_def split: if_splits)
qed

lemma body_appendAll: "body t = Some b \<Longrightarrow> body (appendAll b ns t) = Some b"
  by (induction ns arbitrary: t) (simp_all add: body_appendChild)

lemma rectsForEach_body:
  "body t = Some b \<Longrightarrow> rectsForEach i bs t = (None, appendAll b (map (overlay i) bs) t)"
  by (induction bs arbitrary: t) (simp_all add: body_appendChild)

lemma valid_appendAll: "nodeAt t q \<noteq> None \<Longrightarrow> nodeAt (appendAll b ns t) q \<noteq> None"
proof (induction ns arbitrary: t)
  case Nil
  then show ?case by simp
next
  case (Cons n ns)
  from Cons.prems have "nodeAt (appendChild b n t) q \<noteq> None" by (rule valid_appendChild)
  then show ?case using Cons.IH by simp
qed

lemma appendAll_append: "appendAll b (ms @ ns) t = appendAll b ns (appendAll b ms t)"
  by (induction ms arbitrary: t) simp_all

lemma modify_appendAll:
  "nodeAt t p \<noteq> None \<Longrightarrow> modify f p (appendAll b ns t) = appendAll b ns (modify f p t)"
proof (induction ns arbitrary: t)
  case Nil
  show ?case by simp
next
  case (Cons n ns)
  have "modify f p (appendAll b (n # ns) t) = appendAll b ns (modify f p (appendChild b n t))"
    using Cons.IH[of "appendChild b n t"] Cons.prems by (simp add: valid_appendChild)
  then show ?case using Cons.prems by (simp add: modify_appendChild)
qed

lemma tagAll_appendAll:
  "(\<And>it. it \<in> set its \<Longrightarrow> nodeAt t (element it) \<noteq> None) \<Longrightarrow>
   tagAll i its (appendAll b ns t) = appendAll b ns (tagAll i its t)"
proof (induction its arbitrary: i t)
  case Nil
  show ?case by simp
next
  case (Cons it its)
  have v: "nodeAt t (element it) \<noteq> None" using Cons.prems by simp
  have "\<And>x. x \<in> set its \<Longrightarrow>
      nodeAt (modify (setAttribute ''data-voyager-element-index'' (decimal i)) (element it) t) (element x) \<noteq> None"
    using Cons.prems by (simp add: valid_modify)
  then show ?case using Cons.IH v by (simp add: modify_appendAll)
qed

lemma body_tagAll: "body (tagAll i its t) = body t"
  by (induction its arbitrary: i t) (simp_all add: body_modify setAttribute_def)

lemma valid_tagAll: "(nodeAt (tagAll i its t) q = None) = (nodeAt t q = None)"
  by (induction its arbitrary: i t) (simp_all add: valid_modify)

lemma itemsForEach_body:
  assumes "body t = Some b" "\<And>it. it \<in> set its \<Longrightarrow> nodeAt t (element it) \<noteq> None"
  shows "itemsForEach i its t = (None, appendAll b (overlaysFrom i its) (tagAll i its t))"
  using assms
proof (induction its arbitrary: i t)
  case Nil
  show ?case by simp
next
  case (Cons it its)
  let ?u = "modify (setAttribute ''data-voyager-element-index'' (decimal i)) (element it) t"
  let ?os = "map (overlay i) (rects it)"
  have bu: "body ?u = Some b" using Cons.prems(1) by (simp add: body_modify setAttribute_def)
  have step: "rectsForEach i (rects it) ?u = (None, appendAll b ?os ?u)"
    using rectsForEach_body[OF bu] .
  have bw: "body (appendAll b ?os ?u) = Some b" using bu by (rule body_appendAll)
  have vu: "\<And>x. x \<in> set its \<Longrightarrow> nodeAt ?u (element x) \<noteq> None"
    using Cons.prems(2) by (simp add: valid_modify)
  then have vw: "\<And>x. x \<in> set its \<Longrightarrow> nodeAt (appendAll b ?os ?u) (element x) \<noteq> None"
    by (simp add: valid_appendAll)
  have "itemsForEach i (it # its) t = itemsForEach (i + 1) its (appendAll b ?os ?u)"
    using step by simp
  also have "\<dots> = (None, appendAll b (overlaysFrom (i + 1) its) (tagAll (i + 1) its (appendAll b ?os ?u)))"
    using Cons.IH[OF bw vw] by simp
  also have "tagAll (i + 1) its (appendAll b ?os ?u) = appendAll b ?os (tagAll (i + 1) its ?u)"
    using tagAll_appendAll[of its ?u "i + 1" b ?os] vu by simp
  finally show ?case by (simp add: appendAll_append)
qed

subsection \<open>The selection stages\<close>

lemma foldl_area:
  fixes a :: real
  shows "foldl (\<lambda>acc r. acc + f r) a rs = a + sum_list (map f rs)"
  by (induction rs arbitrary: a) (simp_all add: add.assoc)

lemma candidate_Some:
  assumes "candidate pg t vw vh (el, e) = Some it"
  shows "isInteractive e" "element it = el" "rects it = visibleRects pg vw vh el e"
    "rects it \<noteq> []" "area it = sum_list (map (\<lambda>r. rect_width r * rect_height r) (rects it))"
    "MIN_AREA \<le> area it" "depth it = length el" "item_text it = itemText t el"
  using assms
  by (auto simp: candidate_def Let_def foldl_area getDepth_eq split: if_splits)

lemma candidate_None:
  "candidate pg t vw vh (el, e) = None \<longleftrightarrow>
     \<not> isInteractive e \<or> visibleRects pg vw vh el e = [] \<or>
     sum_list (map (\<lambda>r. rect_width r * rect_height r) (visibleRects pg vw vh el e)) < MIN_AREA"
  by (auto simp: candidate_def Let_def foldl_area split: if_splits)

lemma scan_member:
  "it \<in> set (scan pg t vw vh) \<longleftrightarrow> (\<exists>el e. (el, e) \<in> set (elems t) \<and> candidate pg t vw vh (el, e) = Some it)"
  by (auto simp: scan_def List.map_filter_def image_iff) force+

lemma scan_elements:
  "map element (scan pg t vw vh) = map fst (filter (\<lambda>re. candidate pg t vw vh re \<noteq> None) (elems t))"
proof -
  have "\<And>re. candidate pg t vw vh re \<noteq> None \<Longrightarrow> element (the (candidate pg t vw vh re)) = fst re"
    using candidate_Some(2) by (metis option.sel option.exhaust prod.collapse)
  then show ?thesis by (simp add: scan_def List.map_filter_def)
qed

lemma scan_distinct: "distinct (map element (scan pg t vw vh))"
  unfolding scan_elements by (rule distinct_map_filter) (rule elems_distinct(1))

lemma removeNested_subset: "set (removeNested its) \<subseteq> set its"
  by (auto simp: removeNested_def)

lemma removeNested_distinct: "distinct (map element its) \<Longrightarrow> distinct (map element (removeNested its))"
  unfolding removeNested_def by (rule distinct_map_filter)

lemma removeNested_not_nested:
  assumes "a \<in> set (removeNested its)" "b \<in> set its"
  shows "\<not> strict_prefix (element b) (element a)"
  using assms by (auto simp: removeNested_def list_ex_iff contains_def strict_prefix_def)

lemma mset_insertBy: "mset (insertBy cmp a bs) = add_mset a (mset bs)"
  by (induction bs) auto

lemma mset_sortBy: "mset (sortBy cmp as) = mset as"
  unfolding sortBy_def by (induction as) (simp_all add: mset_insertBy)

lemma compareItems_rank: "(compareItems a b \<le> 0) = (rank a \<le> rank b)"
  by (auto simp: compareItems_def rank_def less_eq_prod_def)

lemma insertBy_insort: "insertBy compareItems a bs = insort_key rank a bs"
  by (induction bs) (simp_all add: compareItems_rank)

lemma sortBy_sort_key: "sortBy compareItems as = sort_key rank as"
  unfolding sortBy_def by (induction as) (simp_all add: insertBy_insort)

lemma prioritize_subset: "set (prioritize its) \<subseteq> set its"
proof (cases "length its > MAX_ELEMENTS")
  case True
  have "set (take MAX_ELEMENTS (sortBy compareItems its)) \<subseteq> set (sortBy compareItems its)"
    by (rule set_take_subset)
  also have "\<dots> = set its" by (metis mset_sortBy set_mset_mset)
  finally show ?thesis using True by (simp add: prioritize_def)
next
  case False
  then show ?thesis by (simp add: prioritize_def)
qed

lemma prioritize_distinct:
  assumes "distinct (map element its)"
  shows "distinct (map element (prioritize its))"
proof (cases "length its > MAX_ELEMENTS")
  case True
  have "mset (map element (sortBy compareItems its)) = mset (map element its)"
    by (simp add: mset_sortBy)
  then have "distinct (map element (sortBy compareItems its))"
    using assms mset_eq_imp_distinct_iff by blast
  then have "distinct (take MAX_ELEMENTS (map element (sortBy compareItems its)))"
    by (rule distinct_take)
  then show ?thesis using True by (simp add: prioritize_def take_map)
next
  case False
  then show ?thesis using assms by (simp add: prioritize_def)
qed

lemma prioritize_length: "length (prioritize its) \<le> MAX_ELEMENTS"
  by (simp add: prioritize_def)

lemma prioritize_length_min: "length (prioritize its) = min MAX_ELEMENTS (length its)"
proof -
  have "length (sortBy compareItems its) = length its"
    by (metis mset_sortBy size_mset)
  then show ?thesis by (simp add: prioritize_def)
qed

subsection \<open>Reading the annotated tree\<close>

lemma map_of_assign: "map_of (assign k v kvs) = (map_of kvs)(k \<mapsto> v)"
  by (induction kvs) (auto simp: fun_eq_iff)

lemma getAttribute_setAttribute:
  "getAttribute (setAttribute k v e) k' = (if k' = k then Some v else getAttribute e k')"
  by (simp add: getAttribute_def setAttribute_def map_of_assign)

lemma hasAttribute_setAttribute:
  "hasAttribute (setAttribute k v e) k' = (k' = k \<or> hasAttribute e k')"
  by (simp add: hasAttribute_def setAttribute_def map_of_assign)

lemma elementAt_valid: "elementAt t p = Some e \<Longrightarrow> nodeAt t p \<noteq> None"
  by (auto simp: elementAt_def split: option.splits)

lemma tagAll_other:
  "p \<notin> element ` set its \<Longrightarrow> elementAt (tagAll i its t) p = elementAt t p"
  by (induction its arbitrary: i t) (auto simp: elementAt_modify)

lemma tagAll_nth:
  "distinct (map element its) \<Longrightarrow> j < length its \<Longrightarrow>
   elementAt (tagAll i its t) (element (its ! j)) =
     map_option (setAttribute ''data-voyager-element-index'' (decimal (i + j)))
       (elementAt t (element (its ! j)))"
proof (induction its arbitrary: i j t)
  case Nil
  then show ?case by simp
next
  case (Cons it its)
  show ?case
  proof (cases j)
    case 0
    have "element it \<notin> element ` set its" using Cons.prems(1) by auto
    then show ?thesis using 0 by (simp add: tagAll_other elementAt_modify)
  next
    case (Suc j')
    have "its ! j' \<in> set its" using Cons.prems(2) Suc by simp
    then have "element (its ! j') \<in> set (map element its)" by simp
    moreover have "element it \<notin> set (map element its)" using Cons.prems(1) by simp
    ultimately have ne: "element (its ! j') \<noteq> element it" by metis
    have "elementAt (tagAll (i + 1) its (modify (setAttribute ''data-voyager-element-index'' (decimal i)) (element it) t)) (element (its ! j'))
        = map_option (setAttribute ''data-voyager-element-index'' (decimal (i + 1 + j')))
            (elementAt (modify (setAttribute ''data-voyager-element-index'' (decimal i)) (element it) t) (element (its ! j')))"
      using Cons.IH[of j' "i + 1"] Cons.prems Suc by simp
    then show ?thesis using Suc ne by (simp add: elementAt_modify)
  qed
qed

lemma childCount_tagAll: "childCount (tagAll i its t) q = childCount t q"
  by (induction its arbitrary: i t) (simp_all add: childCount_modify)

lemma text_tagAll: "nodeAt t q = Some (Text s) \<Longrightarrow> nodeAt (tagAll i its t) q = Some (Text s)"
  by (induction its arbitrary: i t) (simp_all add: text_modify)

lemma elementAt_appendAll:
  "nodeAt t q \<noteq> None \<Longrightarrow> elementAt (appendAll b ns t) q = elementAt t q"
proof (induction ns arbitrary: t)
  case Nil
  show ?case by simp
next
  case (Cons n ns)
  from Cons.prems have "nodeAt (appendChild b n t) q \<noteq> None" by (rule valid_appendChild)
  from Cons.IH[OF this] show ?case using Cons.prems by (simp add: elementAt_appendChild)
qed

lemma text_appendAll:
  "nodeAt t q = Some (Text s) \<Longrightarrow> nodeAt (appendAll b ns t) q = Some (Text s)"
  by (induction ns arbitrary: t) (simp_all add: text_appendChild)

lemma keep_appendAll:
  "nodeAt t q \<noteq> None \<Longrightarrow> \<not> prefix q b \<Longrightarrow> nodeAt (appendAll b ns t) q = nodeAt t q"
proof (induction ns arbitrary: t)
  case Nil
  show ?case by simp
next
  case (Cons n ns)
  have k: "nodeAt (appendChild b n t) q = nodeAt t q"
    using Cons.prems by (rule keep_appendChild)
  then have "nodeAt (appendChild b n t) q \<noteq> None" using Cons.prems by simp
  from Cons.IH[OF this Cons.prems(2)] k show ?case by simp
qed

lemma childCount_appendAll:
  "nodeAt t q \<noteq> None \<Longrightarrow> elementAt t b \<noteq> None \<Longrightarrow>
   childCount (appendAll b ns t) q = childCount t q + (if q = b then length ns else 0)"
proof (induction ns arbitrary: t)
  case Nil
  show ?case by simp
next
  case (Cons n ns)
  have v: "nodeAt (appendChild b n t) q \<noteq> None" using Cons.prems(1) by (rule valid_appendChild)
  have "nodeAt t b \<noteq> None" using Cons.prems(2) by (auto simp: elementAt_def split: option.splits)
  then have vb: "elementAt (appendChild b n t) b \<noteq> None"
    using Cons.prems(2) by (simp add: elementAt_appendChild)
  show ?case using Cons.IH[OF v vb] childCount_appendChild[OF Cons.prems, of n] by simp
qed

lemma new_appendAll:
  "elementAt t b \<noteq> None \<Longrightarrow> k < length ns \<Longrightarrow>
   nodeAt (appendAll b ns t) (b @ [childCount t b + k]) = Some (ns ! k)"
proof (induction ns arbitrary: t k)
  case Nil
  then show ?case by simp
next
  case (Cons n ns)
  let ?u = "appendChild b n t"
  have nb: "nodeAt t b \<noteq> None" using Cons.prems(1) by (auto simp: elementAt_def split: option.splits)
  then have vb: "elementAt ?u b \<noteq> None" using Cons.prems(1) by (simp add: elementAt_appendChild)
  have cc: "childCount ?u b = childCount t b + 1"
    using childCount_appendChild[OF nb Cons.prems(1), of n] by simp
  show ?case
  proof (cases k)
    case 0
    have "nodeAt ?u (b @ [childCount t b]) = Some n"
      using Cons.prems(1) by (rule new_child_appendChild)
    moreover have "\<not> prefix (b @ [childCount t b]) b" by (simp add: prefix_def)
    ultimately have "nodeAt (appendAll b ns ?u) (b @ [childCount t b]) = Some n"
      using keep_appendAll[of ?u "b @ [childCount t b]" b ns] by simp
    then show ?thesis using 0 by simp
  next
    case (Suc k')
    then have "nodeAt (appendAll b ns ?u) (b @ [childCount ?u b + k']) = Some (ns ! k')"
      using Cons.IH[OF vb, of k'] Cons.prems(2) by simp
    then show ?thesis using Suc cc by simp
  qed
qed

lemma fresh_appendChild:
  assumes "elementAt t b \<noteq> None" "nodeAt t q = None" "nodeAt (appendChild b n t) q = Some m"
  shows "\<exists>r. q = b @ childCount t b # r \<and> nodeAt n r = Some m"
proof -
  have np: "\<not> prefix q b" using assms nodeAt_appendChild[OF assms(1), of n q] by auto
  then have p: "prefix (b @ [childCount t b]) q"
    using assms nodeAt_appendChild[OF assms(1), of n q] by (auto split: if_splits)
  then obtain r where r: "q = (b @ [childCount t b]) @ r" by (auto simp: prefix_def)
  have "nodeAt n r = Some m"
    using assms(3) nodeAt_appendChild[OF assms(1), of n q] np p r by simp
  then show ?thesis using r by auto
qed

lemma fresh_appendAll:
  "elementAt t b \<noteq> None \<Longrightarrow> nodeAt t q = None \<Longrightarrow> nodeAt (appendAll b ns t) q = Some m \<Longrightarrow>
   \<exists>k r. k < length ns \<and> q = b @ (childCount t b + k) # r \<and> nodeAt (ns ! k) r = Some m"
proof (induction ns arbitrary: t)
  case Nil
  then show ?case by simp
next
  case (Cons n ns)
  let ?u = "appendChild b n t"
  have nb: "nodeAt t b \<noteq> None" using Cons.prems(1) by (auto simp: elementAt_def split: option.splits)
  then have vb: "elementAt ?u b \<noteq> None" using Cons.prems(1) by (simp add: elementAt_appendChild)
  have cc: "childCount ?u b = childCount t b + 1"
    using childCount_appendChild[OF nb Cons.prems(1), of n] by simp
  show ?case
  proof (cases "nodeAt ?u q")
    case None
    from Cons.IH[OF vb None] Cons.prems(3) obtain k r where
      "k < length ns" "q = b @ (childCount ?u b + k) # r" "nodeAt (ns ! k) r = Some m" by auto
    then have "Suc k < length (n # ns) \<and> q = b @ (childCount t b + Suc k) # r \<and>
        nodeAt ((n # ns) ! Suc k) r = Some m" using cc by simp
    then show ?thesis by blast
  next
    case (Some m0)
    from fresh_appendChild[OF Cons.prems(1,2) Some] obtain r where
      r: "q = b @ childCount t b # r" "nodeAt n r = Some m0" by blast
    have "\<not> prefix q b" using r by (auto simp: prefix_def)
    then have "nodeAt (appendAll b ns ?u) q = nodeAt ?u q"
      using keep_appendAll[of ?u q b ns] Some by simp
    then have "m = m0" using Cons.prems(3) Some by simp
    then have "0 < length (n # ns) \<and> q = b @ (childCount t b + 0) # r \<and>
        nodeAt ((n # ns) ! 0) r = Some m" using r by simp
    then show ?thesis by blast
  qed
qed

subsection \<open>What markPage returns and leaves\<close>

lemma selectItems_subset:
  "set (selectItems pg (Elem html ks)) \<subseteq>
     set (scan pg (Elem html ks) (viewportWidth pg html) (viewportHeight pg html))"
  using prioritize_subset removeNested_subset by (fastforce simp: selectItems_def)

lemma selectItems_candidate:
  assumes "it \<in> set (selectItems pg t)"
  shows "\<exists>html ks e. t = Elem html ks \<and> elementAt t (element it) = Some e \<and>
          candidate pg t (viewportWidth pg html) (viewportHeight pg html) (element it, e) = Some it"
proof (cases t)
  case (Text s)
  then show ?thesis using assms by (simp add: selectItems_def)
next
  case (Elem html ks)
  then have "it \<in> set (scan pg t (viewportWidth pg html) (viewportHeight pg html))"
    using assms selectItems_subset by blast
  then obtain el e where m: "(el, e) \<in> set (elems t)"
    and c: "candidate pg t (viewportWidth pg html) (viewportHeight pg html) (el, e) = Some it"
    using scan_member by blast
  from m have ea: "elementAt t el = Some e" using elems_member(1) by blast
  from candidate_Some(2)[OF c] have "element it = el" .
  then show ?thesis using Elem ea c by blast
qed

lemma selectItems_valid: "it \<in> set (selectItems pg t) \<Longrightarrow> nodeAt t (element it) \<noteq> None"
  using selectItems_candidate elementAt_valid by blast

lemma selectItems_rects: "it \<in> set (selectItems pg t) \<Longrightarrow> rects it \<noteq> []"
  using selectItems_candidate candidate_Some(4) by blast

lemma selectItems_distinct: "distinct (map element (selectItems pg t))"
  by (cases t) (simp_all add: selectItems_def prioritize_distinct removeNested_distinct scan_distinct)

lemma selectItems_length: "length (selectItems pg t) \<le> 60"
  using prioritize_length by (cases t) (simp_all add: selectItems_def MAX_ELEMENTS_def)

lemma markPage_body:
  assumes "documentElement pg = Some t" "body t = Some b"
  shows "markPage pg =
    (Inr [0..<length (selectItems pg t)],
     pg\<lparr>documentElement :=
         Some (appendAll b (overlaysFrom 0 (selectItems pg t)) (tagAll 0 (selectItems pg t) t))\<rparr>)"
  using assms itemsForEach_body[OF assms(2), of "selectItems pg t" 0] selectItems_valid[of _ pg t]
  by (simp add: markPage_def Let_def)

lemma markPage_empty:
  assumes "documentElement pg = Some t" "selectItems pg t = []"
  shows "markPage pg = (Inr [], pg)"
  using assms by (simp add: markPage_def)

lemma rectsForEach_nobody:
  "body t = None \<Longrightarrow> rectsForEach i bs t = (if bs = [] then None else Some TypeError, t)"
  by (cases bs) simp_all

lemma itemsForEach_step:
  "itemsForEach i (it # its) t =
     (let u = modify (setAttribute ''data-voyager-element-index'' (decimal i)) (element it) t in
      if body u = None \<and> rects it \<noteq> [] then (Some TypeError, u)
      else if body u = None then itemsForEach (i + 1) its u
      else itemsForEach (i + 1) its (appendAll (the (body u)) (map (overlay i) (rects it)) u))"
proof -
  let ?u = "modify (setAttribute ''data-voyager-element-index'' (decimal i)) (element it) t"
  show ?thesis
  proof (cases "body ?u")
    case None
    then show ?thesis by (simp add: rectsForEach_nobody Let_def)
  next
    case (Some b)
    then show ?thesis by (simp add: rectsForEach_body Let_def)
  qed
qed

lemma itemsForEach_nobody:
  "body t = None \<Longrightarrow> \<exists>k\<le>length its. snd (itemsForEach i its t) = tagAll i (take k its) t"
proof (induction its arbitrary: i t)
  case Nil
  show ?case by simp
next
  case (Cons it its)
  let ?u = "modify (setAttribute ''data-voyager-element-index'' (decimal i)) (element it) t"
  have bu: "body ?u = None" using Cons.prems by (simp add: body_modify setAttribute_def)
  show ?case
  proof (cases "rects it = []")
    case True
    from Cons.IH[OF bu, of "i + 1"] obtain k where
      k: "k \<le> length its" "snd (itemsForEach (i + 1) its ?u) = tagAll (i + 1) (take k its) ?u"
      by blast
    have "itemsForEach i (it # its) t = itemsForEach (i + 1) its ?u"
      using True bu by (simp only: itemsForEach_step Let_def) simp
    then have "Suc k \<le> length (it # its) \<and>
        snd (itemsForEach i (it # its) t) = tagAll i (take (Suc k) (it # its)) t"
      using k by simp
    then show ?thesis by blast
  next
    case False
    have "itemsForEach i (it # its) t = (Some TypeError, ?u)"
      using False bu by (simp only: itemsForEach_step Let_def) simp
    then have "Suc 0 \<le> length (it # its) \<and>
        snd (itemsForEach i (it # its) t) = tagAll i (take (Suc 0) (it # its)) t"
      by simp
    then show ?thesis by blast
  qed
qed

lemma itemsForEach_nobody_error:
  "body t = None \<Longrightarrow> it \<in> set its \<Longrightarrow> rects it \<noteq> [] \<Longrightarrow>
   fst (itemsForEach i its t) = Some TypeError"
proof (induction its arbitrary: i t)
  case Nil
  then show ?case by simp
next
  case (Cons x its)
  let ?u = "modify (setAttribute ''data-voyager-element-index'' (decimal i)) (element x) t"
  have bu: "body ?u = None" using Cons.prems(1) by (simp add: body_modify setAttribute_def)
  show ?case
  proof (cases "rects x = []")
    case True
    then have "it \<in> set its" using Cons.prems by auto
    from Cons.IH[OF bu this Cons.prems(3), of "i + 1"]
    show ?thesis using True bu by (simp only: itemsForEach_step Let_def) simp
  next
    case False
    then show ?thesis using bu by (simp only: itemsForEach_step Let_def) simp
  qed
qed

lemma markPage_Inr:
  assumes "markPage pg = (Inr idxs, pg')"
  shows "\<exists>t. documentElement pg = Some t \<and> idxs = [0..<length (selectItems pg t)] \<and>
     ((selectItems pg t = [] \<and> pg' = pg) \<or>
      (\<exists>b. body t = Some b \<and>
         pg' = pg\<lparr>documentElement :=
           Some (appendAll b (overlaysFrom 0 (selectItems pg t)) (tagAll 0 (selectItems pg t) t))\<rparr>))"
proof (cases "documentElement pg")
  case None
  then show ?thesis using assms by (simp add: markPage_def)
next
  case (Some t)
  note doc = this
  show ?thesis
  proof (cases "body t")
    case (Some b)
    from markPage_body[OF doc Some] assms
    have "idxs = [0..<length (selectItems pg t)]"
      and "pg' = pg\<lparr>documentElement :=
           Some (appendAll b (overlaysFrom 0 (selectItems pg t)) (tagAll 0 (selectItems pg t) t))\<rparr>"
      by simp_all
    then show ?thesis using doc Some by blast
  next
    case None
    show ?thesis
    proof (cases "selectItems pg t = []")
      case True
      from markPage_empty[OF doc True] assms have "idxs = []" "pg' = pg" by simp_all
      then show ?thesis using doc True by simp
    next
      case False
      then obtain it where it: "it \<in> set (selectItems pg t)" by (cases "selectItems pg t") auto
      have "fst (itemsForEach 0 (selectItems pg t) t) = Some TypeError"
        using itemsForEach_nobody_error[OF None it selectItems_rects[OF it]] .
      then have "fst (markPage pg) = Inl TypeError" using doc
        by (auto simp: markPage_def Let_def split: prod.splits option.splits)
      then show ?thesis using assms by simp
    qed
  qed
qed

lemma markPage_frame:
  assumes "markPage pg = (r, pg')" "documentElement pg = Some t" "elementAt t p = Some e"
    "p \<notin> element ` set (selectItems pg t)"
  shows "\<exists>t'. documentElement pg' = Some t' \<and> elementAt t' p = Some e"
proof (cases "body t")
  case (Some b)
  have "nodeAt (tagAll 0 (selectItems pg t) t) p \<noteq> None"
    using assms(3) elementAt_valid by (simp add: valid_tagAll)
  then show ?thesis
    using assms markPage_body[OF assms(2) Some]
    by (auto simp: elementAt_appendAll tagAll_other)
next
  case None
  from itemsForEach_nobody[OF None, of "selectItems pg t" 0] obtain k where
    k: "snd (itemsForEach 0 (selectItems pg t) t) = tagAll 0 (take k (selectItems pg t)) t"
    by blast
  have "p \<notin> element ` set (take k (selectItems pg t))"
    using assms(4) set_take_subset by fastforce
  then have "elementAt (tagAll 0 (take k (selectItems pg t)) t) p = Some e"
    using assms(3) by (simp add: tagAll_other)
  then show ?thesis using assms(1,2) k
    by (auto simp: markPage_def Let_def split: prod.splits option.splits)
qed

lemma selected_eq: "selected pg = prioritize (removeNested (candidates pg))"
  by (auto simp: selected_def candidates_def selectItems_def prioritize_def removeNested_def
      split: option.splits node.splits)

lemma selected_distinct: "distinct (map element (selected pg))"
  by (simp add: selected_def selectItems_distinct split: option.splits)

lemma selected_length: "length (selected pg) \<le> 60"
  by (simp add: selected_def selectItems_length split: option.splits)

lemma markPage_Inr_selected:
  assumes "markPage pg = (Inr idxs, pg')"
  shows "idxs = [0..<length (selected pg)]"
  using markPage_Inr[OF assms] by (auto simp: selected_def)

lemma markPage_tags:
  assumes "markPage pg = (Inr idxs, pg')" "i < length idxs"
  shows "\<exists>e. elementOf pg (element (selected pg ! i)) = Some e \<and>
     elementOf pg' (element (selected pg ! i)) =
       Some (setAttribute ''data-voyager-element-index'' (decimal i) e)"
proof -
  from markPage_Inr[OF assms(1)] obtain t where
    doc: "documentElement pg = Some t" and idxs: "idxs = [0..<length (selectItems pg t)]" and
    alt: "(selectItems pg t = [] \<and> pg' = pg) \<or>
      (\<exists>b. body t = Some b \<and>
         pg' = pg\<lparr>documentElement :=
           Some (appendAll b (overlaysFrom 0 (selectItems pg t)) (tagAll 0 (selectItems pg t) t))\<rparr>)"
    by blast
  let ?its = "selectItems pg t"
  have i: "i < length ?its" using assms(2) idxs by simp
  then have "?its \<noteq> []" by auto
  with alt obtain b where
    pg': "pg' = pg\<lparr>documentElement := Some (appendAll b (overlaysFrom 0 ?its) (tagAll 0 ?its t))\<rparr>"
    by blast
  have mem: "?its ! i \<in> set ?its" using i by simp
  from selectItems_candidate[OF mem] obtain e where e: "elementAt t (element (?its ! i)) = Some e"
    by blast
  have "nodeAt (tagAll 0 ?its t) (element (?its ! i)) \<noteq> None"
    using selectItems_valid[OF mem] by (simp add: valid_tagAll)
  then have "elementAt (appendAll b (overlaysFrom 0 ?its) (tagAll 0 ?its t)) (element (?its ! i))
      = elementAt (tagAll 0 ?its t) (element (?its ! i))"
    by (rule elementAt_appendAll)
  also have "\<dots> = Some (setAttribute ''data-voyager-element-index'' (decimal i) e)"
    using tagAll_nth[OF selectItems_distinct i, of 0 t] e by simp
  finally show ?thesis using doc pg' e by (simp add: elementOf_def selected_def)
qed

lemma markPage_changed:
  assumes "markPage pg = (r, pg')" "elementOf pg p = Some e" "elementOf pg' p \<noteq> Some e"
  shows "p \<in> element ` set (selected pg)"
proof (rule ccontr)
  assume n: "p \<notin> element ` set (selected pg)"
  from assms(2) obtain t where doc: "documentElement pg = Some t" and e: "elementAt t p = Some e"
    by (auto simp: elementOf_def split: option.splits)
  from n doc have "p \<notin> element ` set (selectItems pg t)" by (simp add: selected_def)
  from markPage_frame[OF assms(1) doc e this] assms(3) show False
    by (auto simp: elementOf_def)
qed

lemma selected_candidate:
  assumes "it \<in> set (selected pg)"
  shows "\<exists>html ks e. documentElement pg = Some (Elem html ks) \<and>
          elementAt (Elem html ks) (element it) = Some e \<and>
          candidate pg (Elem html ks) (viewportWidth pg html) (viewportHeight pg html)
            (element it, e) = Some it"
proof -
  from assms obtain t where doc: "documentElement pg = Some t" and it: "it \<in> set (selectItems pg t)"
    by (cases "documentElement pg") (auto simp: selected_def)
  from selectItems_candidate[OF it] doc show ?thesis by blast
qed

lemma candidates_member:
  "it \<in> set (candidates pg) \<longleftrightarrow>
     (\<exists>html ks el e. documentElement pg = Some (Elem html ks) \<and>
        elementAt (Elem html ks) el = Some e \<and>
        candidate pg (Elem html ks) (viewportWidth pg html) (viewportHeight pg html) (el, e) = Some it)"
proof (cases "documentElement pg")
  case None
  then show ?thesis by (simp add: candidates_def)
next
  case (Some t)
  show ?thesis
  proof (cases t)
    case (Text s)
    then show ?thesis using Some by (simp add: candidates_def)
  next
    case (Elem html ks)
    have "it \<in> set (candidates pg) \<longleftrightarrow>
        it \<in> set (scan pg t (viewportWidth pg html) (viewportHeight pg html))"
      using Some Elem by (simp add: candidates_def)
    also have "\<dots> \<longleftrightarrow> (\<exists>el e. elementAt t el = Some e \<and>
        candidate pg t (viewportWidth pg html) (viewportHeight pg html) (el, e) = Some it)"
      by (simp only: scan_member elems_member(1))
    finally show ?thesis using Some Elem by simp
  qed
qed

lemma selected_subset: "set (selected pg) \<subseteq> set (removeNested (candidates pg))"
  unfolding selected_eq by (rule prioritize_subset)

lemma visibleRects_member:
  "r \<in> set (visibleRects pg vw vh el e) \<longleftrightarrow>
     (\<exists>bb\<in>set (clientRects e).
        atCenter pg el bb \<and>
        r = \<lparr>rect_left = max 0 (bb_left bb), rect_top = max 0 (bb_top bb),
             rect_right = min vw (bb_right bb), rect_bottom = min vh (bb_bottom bb),
             rect_width = min vw (bb_right bb) - max 0 (bb_left bb),
             rect_height = min vh (bb_bottom bb) - max 0 (bb_top bb)\<rparr> \<and>
        0 < rect_width r \<and> 0 < rect_height r)"
  by (auto simp: visibleRects_def withSize_def clip_def image_iff)

lemma atCenter_iff:
  "atCenter pg el bb \<longleftrightarrow>
     (\<exists>d. elementFromPoint pg (bb_left bb + bb_width bb / 2) (bb_top bb + bb_height bb / 2) = Some d \<and>
          (d = el \<or> prefix el d))"
  by (auto simp: atCenter_def contains_def Let_def split: option.splits)

lemma selected_rects:
  assumes "documentElement pg = Some (Elem html ks)" "it \<in> set (selected pg)"
  shows "\<exists>e. elementAt (Elem html ks) (element it) = Some e \<and>
     rects it = visibleRects pg (viewportWidth pg html) (viewportHeight pg html) (element it) e"
proof -
  from selected_candidate[OF assms(2)] assms(1) obtain e where
    e: "elementAt (Elem html ks) (element it) = Some e" and
    c: "candidate pg (Elem html ks) (viewportWidth pg html) (viewportHeight pg html) (element it, e) = Some it"
    by auto
  from candidate_Some(3)[OF c] e show ?thesis by blast
qed

lemma no_rects_not_selected:
  assumes "documentElement pg = Some (Elem html ks)" "elementAt (Elem html ks) el = Some e"
    "visibleRects pg (viewportWidth pg html) (viewportHeight pg html) el e = []"
  shows "el \<notin> element ` set (selected pg)"
proof
  assume "el \<in> element ` set (selected pg)"
  then obtain it where it: "it \<in> set (selected pg)" and el: "element it = el" by auto
  from selected_candidate[OF it] assms(1,2) el have
    c: "candidate pg (Elem html ks) (viewportWidth pg html) (viewportHeight pg html) (el, e) = Some it"
    by auto
  note f = candidate_Some[OF c]
  from assms(3) f(3,4) show False by simp
qed

lemma overlaysFrom_length:
  "length (overlaysFrom i its) = (\<Sum>it\<leftarrow>its. length (rects it))"
  by (induction its arbitrary: i) simp_all

lemma overlaysFrom_member:
  "n \<in> set (overlaysFrom i its) \<longleftrightarrow>
     (\<exists>j bbox. j < length its \<and> bbox \<in> set (rects (its ! j)) \<and> n = overlay (i + j) bbox)"
proof (induction its arbitrary: i)
  case Nil
  show ?case by simp
next
  case (Cons it its)
  show ?case (is "?L = ?R")
  proof
    assume ?L
    then consider "n \<in> overlay i ` set (rects it)" | "n \<in> set (overlaysFrom (i + 1) its)" by auto
    then show ?R
    proof cases
      case 1
      then obtain bbox where "bbox \<in> set (rects ((it # its) ! 0))" "n = overlay (i + 0) bbox" by auto
      then show ?thesis by (intro exI[of _ 0]) auto
    next
      case 2
      then obtain j bbox where "j < length its" "bbox \<in> set (rects (its ! j))"
        "n = overlay (i + 1 + j) bbox" using Cons.IH by blast
      then have "Suc j < length (it # its) \<and> bbox \<in> set (rects ((it # its) ! Suc j)) \<and>
          n = overlay (i + Suc j) bbox" by simp
      then show ?thesis by blast
    qed
  next
    assume ?R
    then obtain j bbox where j: "j < length (it # its)" "bbox \<in> set (rects ((it # its) ! j))"
      "n = overlay (i + j) bbox" by blast
    show ?L
    proof (cases j)
      case 0
      then show ?thesis using j by simp
    next
      case (Suc j')
      then have "j' < length its \<and> bbox \<in> set (rects (its ! j')) \<and> n = overlay (i + 1 + j') bbox"
        using j by simp
      then have "n \<in> set (overlaysFrom (i + 1) its)" using Cons.IH by blast
      then show ?thesis by simp
    qed
  qed
qed

lemma elementAt_tagAll_valid: "(elementAt (tagAll i its t) p = None) = (elementAt t p = None)"
  by (induction its arbitrary: i t) (simp_all add: elementAt_modify)

lemma markPage_rendered:
  assumes "markPage pg = (Inr idxs, pg')" "documentElement pg = Some t" "body t = Some b"
  shows "pg' = pg\<lparr>documentElement :=
           Some (appendAll b (overlaysFrom 0 (selected pg)) (tagAll 0 (selected pg) t))\<rparr>"
  using assms markPage_body[OF assms(2,3)] by (simp add: selected_def)

lemma rendered_children:
  assumes "body t = Some b"
  shows "childCount (appendAll b (overlaysFrom 0 its) (tagAll 0 its t)) b =
           childCount t b + length (overlaysFrom 0 its)"
    and "k < length (overlaysFrom 0 its) \<Longrightarrow>
         nodeAt (appendAll b (overlaysFrom 0 its) (tagAll 0 its t)) (b @ [childCount t b + k]) =
           Some (overlaysFrom 0 its ! k)"
proof -
  let ?u = "tagAll 0 its t"
  have vb: "elementAt ?u b \<noteq> None" using body_valid[OF assms(1)] by (simp add: elementAt_tagAll_valid)
  then have nb: "nodeAt ?u b \<noteq> None" by (auto simp: elementAt_def split: option.splits)
  show "childCount (appendAll b (overlaysFrom 0 its) ?u) b = childCount t b + length (overlaysFrom 0 its)"
    using childCount_appendAll[OF nb vb] by (simp add: childCount_tagAll)
  show "nodeAt (appendAll b (overlaysFrom 0 its) ?u) (b @ [childCount t b + k]) =
      Some (overlaysFrom 0 its ! k)"
    if "k < length (overlaysFrom 0 its)"
    using new_appendAll[OF vb that] by (simp add: childCount_tagAll)
qed

lemma selected_rect_positive:
  assumes "it \<in> set (selected pg)" "bbox \<in> set (rects it)"
  shows "0 < rect_width bbox \<and> 0 < rect_height bbox"
proof -
  from selected_candidate[OF assms(1)] obtain html ks e where
    c: "candidate pg (Elem html ks) (viewportWidth pg html) (viewportHeight pg html) (element it, e) = Some it"
    by blast
  from candidate_Some(3)[OF c] assms(2) show ?thesis by (auto simp: visibleRects_def)
qed


lemma overlay_elements:
  assumes "elementAt (overlay i bbox) q = Some e"
  shows "\<not> hasAttribute e ''data-voyager-element-index''"
proof -
  let ?c = "setAttribute ''data-voyager-rect-index'' (decimal i)
              ((createElement ''DIV'')\<lparr>style := containerStyle bbox\<rparr>)"
  let ?l = "(createElement ''SPAN'')\<lparr>style := labelStyle bbox\<rparr>"
  have o: "overlay i bbox = Elem ?c [Elem ?l [Text (decimal i)]]"
    by (simp add: overlay_def Let_def)
  have c: "\<not> hasAttribute ?c ''data-voyager-element-index''"
    by (simp add: hasAttribute_setAttribute) (simp add: hasAttribute_def createElement_def)
  have l: "\<not> hasAttribute ?l ''data-voyager-element-index''"
    by (simp add: hasAttribute_def createElement_def)
  show ?thesis
  proof (cases q)
    case Nil
    then show ?thesis using assms o c by simp
  next
    case (Cons j q')
    then show ?thesis using assms o l by (cases q') (auto split: if_splits)
  qed
qed


lemma withAttribute_member:
  "p \<in> set (withAttribute k pg) \<longleftrightarrow> (\<exists>e. elementOf pg p = Some e \<and> hasAttribute e k)"
proof (cases "documentElement pg")
  case None
  then show ?thesis by (simp add: withAttribute_def querySelectorAll_star_def elementOf_def)
next
  case (Some t)
  have "p \<in> set (withAttribute k pg) \<longleftrightarrow> (\<exists>e. (p, e) \<in> set (elems t) \<and> hasAttribute e k)"
    using Some by (force simp: withAttribute_def querySelectorAll_star_def)
  then show ?thesis using Some by (simp add: elems_member(1) elementOf_def)
qed

lemma withAttribute_distinct: "distinct (withAttribute k pg)"
proof (cases "documentElement pg")
  case None
  then show ?thesis by (simp add: withAttribute_def querySelectorAll_star_def)
next
  case (Some t)
  then show ?thesis
    unfolding withAttribute_def querySelectorAll_star_def
    by (simp add: distinct_map_filter elems_distinct(1))
qed

text \<open>The tree a returning call leaves, described node by node.\<close>

lemma annotated_tree:
  assumes b: "items \<noteq> [] \<longrightarrow> body t = Some b"
    and v: "\<And>it. it \<in> set items \<Longrightarrow> nodeAt t (element it) \<noteq> None"
    and d: "distinct (map element items)"
  defines "os \<equiv> overlaysFrom 0 items"
  defines "t' \<equiv> appendAll b os (tagAll 0 items t)"
  shows "elementAt t p = Some e \<Longrightarrow> p \<notin> element ` set items \<Longrightarrow> elementAt t' p = Some e"
    and "elementAt t p = Some e \<Longrightarrow> i < length items \<Longrightarrow> p = element (items ! i) \<Longrightarrow>
         elementAt t' p = Some (setAttribute ''data-voyager-element-index'' (decimal i) e)"
    and "nodeAt t p = Some (Text s) \<Longrightarrow> nodeAt t' p = Some (Text s)"
    and "nodeAt t p \<noteq> None \<Longrightarrow>
         childCount t' p = childCount t p + (if body t = Some p then length os else 0)"
    and "body t = Some b \<Longrightarrow> k < length os \<Longrightarrow> nodeAt t' (b @ [childCount t b + k]) = Some (os ! k)"
    and "nodeAt t p = None \<Longrightarrow> nodeAt t' p = Some m \<Longrightarrow>
         \<exists>k q. body t = Some b \<and> k < length os \<and> p = b @ (childCount t b + k) # q \<and>
               nodeAt (os ! k) q = Some m"
proof -
  let ?u = "tagAll 0 items t"
  have valid: "nodeAt ?u q \<noteq> None" if "nodeAt t q \<noteq> None" for q
    using that by (simp add: valid_tagAll)
  show "elementAt t' p = Some e" if "elementAt t p = Some e" "p \<notin> element ` set items"
    unfolding t'_def using that valid[OF elementAt_valid[OF that(1)]]
    by (simp add: elementAt_appendAll tagAll_other)
  show "elementAt t' p = Some (setAttribute ''data-voyager-element-index'' (decimal i) e)"
    if "elementAt t p = Some e" "i < length items" "p = element (items ! i)"
    unfolding t'_def using that valid[OF elementAt_valid[OF that(1)]] tagAll_nth[OF d that(2), of 0 t]
    by (simp add: elementAt_appendAll)
  show "nodeAt t' p = Some (Text s)" if "nodeAt t p = Some (Text s)"
    unfolding t'_def using that by (simp add: text_appendAll text_tagAll)
  show "childCount t' p = childCount t p + (if body t = Some p then length os else 0)"
    if "nodeAt t p \<noteq> None"
  proof (cases "items = []")
    case True
    then show ?thesis by (simp add: t'_def os_def)
  next
    case False
    with b have bb: "body t = Some b" by simp
    have vb: "elementAt ?u b \<noteq> None" using body_valid[OF bb] by (simp add: elementAt_tagAll_valid)
    show ?thesis unfolding t'_def
      using childCount_appendAll[OF valid[OF that] vb, of os] bb by (auto simp: childCount_tagAll)
  qed
  show "nodeAt t' (b @ [childCount t b + k]) = Some (os ! k)" if "body t = Some b" "k < length os"
    unfolding t'_def os_def using rendered_children(2)[OF that(1), of k items] that(2)
    by (simp add: os_def)
  show "\<exists>k q. body t = Some b \<and> k < length os \<and> p = b @ (childCount t b + k) # q \<and>
               nodeAt (os ! k) q = Some m"
    if "nodeAt t p = None" "nodeAt t' p = Some m"
  proof (cases "items = []")
    case True
    then show ?thesis using that by (simp add: t'_def os_def)
  next
    case False
    with b have bb: "body t = Some b" by simp
    have vb: "elementAt ?u b \<noteq> None" using body_valid[OF bb] by (simp add: elementAt_tagAll_valid)
    have nu: "nodeAt ?u p = None" using that(1) by (simp add: valid_tagAll)
    from fresh_appendAll[OF vb nu that(2)[unfolded t'_def]] bb
    show ?thesis by (auto simp: childCount_tagAll)
  qed
qed

lemma markPage_Inr_tree:
  assumes "markPage pg = (Inr idxs, pg')" "documentElement pg = Some t"
  shows "\<exists>b. (selected pg \<noteq> [] \<longrightarrow> body t = Some b) \<and>
     pg' = pg\<lparr>documentElement :=
        Some (appendAll b (overlaysFrom 0 (selected pg)) (tagAll 0 (selected pg) t))\<rparr>"
proof -
  from markPage_Inr[OF assms(1)] assms(2) have
    alt: "(selectItems pg t = [] \<and> pg' = pg) \<or>
      (\<exists>b. body t = Some b \<and>
         pg' = pg\<lparr>documentElement :=
           Some (appendAll b (overlaysFrom 0 (selectItems pg t)) (tagAll 0 (selectItems pg t) t))\<rparr>)"
    by auto
  have s: "selected pg = selectItems pg t" using assms(2) by (simp add: selected_def)
  from alt show ?thesis
  proof
    assume "selectItems pg t = [] \<and> pg' = pg"
    then have "selected pg = []" "pg' = pg\<lparr>documentElement :=
        Some (appendAll [] (overlaysFrom 0 (selected pg)) (tagAll 0 (selected pg) t))\<rparr>"
      using s assms(2) by simp_all
    then show ?thesis by blast
  next
    assume "\<exists>b. body t = Some b \<and>
         pg' = pg\<lparr>documentElement :=
           Some (appendAll b (overlaysFrom 0 (selectItems pg t)) (tagAll 0 (selectItems pg t) t))\<rparr>"
    then show ?thesis using s by auto
  qed
qed


lemma markPage_carriers:
  assumes "markPage pg = (Inr idxs, pg')"
  shows "set (withAttribute ''data-voyager-element-index'' pg') =
     element ` set (selected pg) \<union> set (withAttribute ''data-voyager-element-index'' pg)"
proof -
  let ?k = "''data-voyager-element-index''"
  let ?its = "selected pg"
  from markPage_Inr[OF assms] obtain t where doc: "documentElement pg = Some t" by blast
  from markPage_Inr_tree[OF assms doc] obtain b where
    b: "?its \<noteq> [] \<longrightarrow> body t = Some b" and
    pg': "pg' = pg\<lparr>documentElement := Some (appendAll b (overlaysFrom 0 ?its) (tagAll 0 ?its t))\<rparr>"
    by blast
  let ?os = "overlaysFrom 0 ?its"
  let ?t' = "appendAll b ?os (tagAll 0 ?its t)"
  have v: "\<And>it. it \<in> set ?its \<Longrightarrow> nodeAt t (element it) \<noteq> None"
    using selectItems_valid[of _ pg t] doc by (simp add: selected_def)
  note A = annotated_tree[OF b v selected_distinct]
  have e': "elementOf pg' p = elementAt ?t' p" for p using pg' by (simp add: elementOf_def)
  have e0: "elementOf pg p = elementAt t p" for p using doc by (simp add: elementOf_def)
  show ?thesis
  proof (intro set_eqI iffI)
    fix p assume "p \<in> set (withAttribute ?k pg')"
    then obtain x where x: "elementAt ?t' p = Some x" "hasAttribute x ?k"
      using withAttribute_member[of p ?k pg'] e' by auto
    then obtain ks where n': "nodeAt ?t' p = Some (Elem x ks)"
      by (auto simp: elementAt_def split: option.splits node.splits)
    show "p \<in> element ` set ?its \<union> set (withAttribute ?k pg)"
    proof (cases "nodeAt t p")
      case None
      from A(6) None n' obtain k q where
        k: "k < length ?os" "nodeAt (?os ! k) q = Some (Elem x ks)" by blast
      then have "?os ! k \<in> set ?os" by simp
      then obtain i bbox where "?os ! k = overlay i bbox"
        using overlaysFrom_member[of "?os ! k" 0 ?its] by auto
      then have "elementAt (overlay i bbox) q = Some x" using k(2) by (simp add: elementAt_def)
      from overlay_elements[OF this] x(2) show ?thesis by simp
    next
      case (Some n)
      show ?thesis
      proof (cases n)
        case (Text s)
        from A(3) Some Text have "nodeAt ?t' p = Some (Text s)" by blast
        with n' show ?thesis by simp
      next
        case (Elem y ys)
        then have y: "elementAt t p = Some y" using Some by (simp add: elementAt_def)
        show ?thesis
        proof (cases "p \<in> element ` set ?its")
          case True
          then show ?thesis by simp
        next
          case False
          from A(1) y False have "elementAt ?t' p = Some y" by blast
          with x have "x = y" by simp
          then have "p \<in> set (withAttribute ?k pg)"
            using withAttribute_member[of p ?k pg] e0 y x(2) by auto
          then show ?thesis by simp
        qed
      qed
    qed
  next
    fix p assume "p \<in> element ` set ?its \<union> set (withAttribute ?k pg)"
    then consider "p \<in> element ` set ?its" | "p \<notin> element ` set ?its" "p \<in> set (withAttribute ?k pg)"
      by blast
    then show "p \<in> set (withAttribute ?k pg')"
    proof cases
      case 1
      then obtain i where i: "i < length ?its" "p = element (?its ! i)"
        by (auto simp: in_set_conv_nth)
      from selected_candidate[of "?its ! i" pg] i doc obtain y where y: "elementAt t p = Some y"
        by auto
      from A(2) y i have "elementAt ?t' p = Some (setAttribute ?k (decimal i) y)" by blast
      then show ?thesis using withAttribute_member[of p ?k pg'] e'
        by (simp add: hasAttribute_setAttribute)
    next
      case 2
      then obtain y where y: "elementAt t p = Some y" "hasAttribute y ?k"
        using withAttribute_member[of p ?k pg] e0 by auto
      from A(1) y(1) 2(1) have "elementAt ?t' p = Some y" by blast
      with y(2) show ?thesis
        using withAttribute_member[of p ?k pg'] e' by simp
    qed
  qed
qed

lemma rank_le: "rank a \<le> rank b \<longleftrightarrow> depth a < depth b \<or> (depth a = depth b \<and> area b \<le> area a)"
  by (auto simp: rank_def less_eq_prod_def)

lemma sorted_take_drop:
  assumes "sorted_wrt P xs" "a \<in> set (take n xs)" "b \<in> set (drop n xs)"
  shows "P a b"
proof -
  have "sorted_wrt P (take n xs @ drop n xs)" using assms(1) by simp
  then show ?thesis using assms(2,3) unfolding sorted_wrt_append by blast
qed

section \<open>The claims\<close>

text \<open>
  C5. Whatever a call of markPage does on a page, it annotates at most 60 items: the
  list it returns, when it returns, is \<open>0..N-1\<close> for these N \<le> 60 items, and at most 60
  elements of the page are different afterwards.
\<close>

theorem tagged_at_most_60:
  assumes "markPage pg = (r, pg')"
  shows "length (selected pg) \<le> 60 \<and>
         (\<forall>idxs. r = Inr idxs \<longrightarrow> idxs = [0..<length (selected pg)] \<and> length idxs \<le> 60) \<and>
         card {p. \<exists>e. elementOf pg p = Some e \<and> elementOf pg' p \<noteq> Some e} \<le> 60"
proof -
  let ?C = "{p. \<exists>e. elementOf pg p = Some e \<and> elementOf pg' p \<noteq> Some e}"
  have "?C \<subseteq> set (map element (selected pg))"
    using markPage_changed[OF assms] by auto
  then have "card ?C \<le> card (set (map element (selected pg)))"
    by (intro card_mono) simp_all
  also have "\<dots> \<le> length (selected pg)" using card_length[of "map element (selected pg)"] by simp
  finally have c: "card ?C \<le> 60" using selected_length[of pg] by simp
  have "idxs = [0..<length (selected pg)] \<and> length idxs \<le> 60" if "r = Inr idxs" for idxs
  proof -
    from that assms have "markPage pg = (Inr idxs, pg')" by simp
    then have "idxs = [0..<length (selected pg)]" by (rule markPage_Inr_selected)
    then show ?thesis using selected_length[of pg] by simp
  qed
  then show ?thesis using c selected_length[of pg] by blast
qed

theorem tagged_at_most_60_witness:
  "markPage examplePage = (Inr [0, 1], snd (markPage examplePage)) \<and>
   length (selected examplePage) \<le> 60 \<and>
   [0, 1] = [0..<length (selected examplePage)] \<and>
   card {p. \<exists>e. elementOf examplePage p = Some e \<and>
                 elementOf (snd (markPage examplePage)) p \<noteq> Some e} \<le> 60"
proof -
  have "fst (markPage examplePage) = Inr [0, 1]" by code_simp
  then have m: "markPage examplePage = (Inr [0, 1], snd (markPage examplePage))"
    by (simp add: prod_eq_iff)
  from tagged_at_most_60[OF m] m show ?thesis by simp
qed

text \<open>
  C4. Among the items markPage annotates, no element is a strict ancestor of another;
  a candidate whose element lies strictly inside the element of another candidate is
  not annotated; and the elements that a returning call tags with two different
  indices are different and not nested.
\<close>

theorem no_nested_tagged:
  "(\<forall>a\<in>set (selected pg). \<forall>b\<in>set (selected pg).
      \<not> strict_prefix (element a) (element b)) \<and>
   (\<forall>x\<in>set (candidates pg). \<forall>y\<in>set (candidates pg).
      strict_prefix (element y) (element x) \<longrightarrow> x \<notin> set (selected pg)) \<and>
   (\<forall>idxs pg' i j. markPage pg = (Inr idxs, pg') \<longrightarrow> i < length idxs \<longrightarrow> j < length idxs \<longrightarrow>
      i \<noteq> j \<longrightarrow>
        element (selected pg ! i) \<noteq> element (selected pg ! j) \<and>
        \<not> strict_prefix (element (selected pg ! i)) (element (selected pg ! j)))"
proof (intro conjI ballI allI impI)
  fix a b :: item
  assume "a \<in> set (selected pg)" "b \<in> set (selected pg)"
  then have "b \<in> set (removeNested (candidates pg))" "a \<in> set (candidates pg)"
    using selected_subset removeNested_subset by blast+
  then show "\<not> strict_prefix (element a) (element b)" by (rule removeNested_not_nested)
next
  fix x y :: item
  assume y: "y \<in> set (candidates pg)" and s: "strict_prefix (element y) (element x)"
  show "x \<notin> set (selected pg)"
  proof
    assume "x \<in> set (selected pg)"
    then have "x \<in> set (removeNested (candidates pg))" using selected_subset by blast
    from removeNested_not_nested[OF this y] s show False by simp
  qed
next
  fix idxs pg' i j
  assume m: "markPage pg = (Inr idxs, pg')" and ij: "i < length idxs" "j < length idxs" "i \<noteq> j"
  from markPage_Inr_selected[OF m] ij have l: "i < length (selected pg)" "j < length (selected pg)"
    by simp_all
  then show "element (selected pg ! i) \<noteq> element (selected pg ! j)"
    using selected_distinct[of pg] ij(3) by (simp add: distinct_conv_nth)
  from l have "selected pg ! i \<in> set (removeNested (candidates pg))"
    "selected pg ! j \<in> set (candidates pg)"
    using selected_subset removeNested_subset nth_mem by blast+
  then have "\<not> strict_prefix (element (selected pg ! j)) (element (selected pg ! i))"
    by (rule removeNested_not_nested)
  moreover from l have "selected pg ! j \<in> set (removeNested (candidates pg))"
    "selected pg ! i \<in> set (candidates pg)"
    using selected_subset removeNested_subset nth_mem by blast+
  then have "\<not> strict_prefix (element (selected pg ! i)) (element (selected pg ! j))"
    by (rule removeNested_not_nested)
  ultimately show "\<not> strict_prefix (element (selected pg ! i)) (element (selected pg ! j))"
    by simp
qed

theorem no_nested_tagged_witness:
  "markPage examplePage = (Inr [0, 1], snd (markPage examplePage)) \<and>
   map element (selected examplePage) = [[1, 0], [1, 1]] \<and>
   map element (candidates examplePage) = [[1, 0], [1, 1], [1, 1, 0]] \<and>
   \<not> strict_prefix (element (selected examplePage ! 0)) (element (selected examplePage ! 1)) \<and>
   strict_prefix (element (candidates examplePage ! 1)) (element (candidates examplePage ! 2)) \<and>
   candidates examplePage ! 2 \<notin> set (selected examplePage)"
proof -
  have "fst (markPage examplePage) = Inr [0, 1]" by code_simp
  then have m: "markPage examplePage = (Inr [0, 1], snd (markPage examplePage))"
    by (simp add: prod_eq_iff)
  have s: "map element (selected examplePage) = [[1, 0], [1, 1]]" by code_simp
  have c: "map element (candidates examplePage) = [[1, 0], [1, 1], [1, 1, 0]]" by code_simp
  have "element (candidates examplePage ! 1) = [1, 1]"
    "element (candidates examplePage ! 2) = [1, 1, 0]" by code_simp+
  then have sp: "strict_prefix (element (candidates examplePage ! 1)) (element (candidates examplePage ! 2))"
    by simp
  have "length (candidates examplePage) = 3" using arg_cong[OF c, of length] by simp
  then have mem: "candidates examplePage ! 1 \<in> set (candidates examplePage)"
    "candidates examplePage ! 2 \<in> set (candidates examplePage)"
    by simp_all
  have "\<not> strict_prefix (element (selected examplePage ! 0)) (element (selected examplePage ! 1))"
    using conjunct2[OF conjunct2[OF no_nested_tagged[of examplePage]], rule_format, OF m, of 0 1]
    by simp
  moreover have "candidates examplePage ! 2 \<notin> set (selected examplePage)"
    using conjunct1[OF conjunct2[OF no_nested_tagged[of examplePage]], rule_format, OF mem(2) mem(1) sp] .
  ultimately show ?thesis using m s c sp by simp
qed

text \<open>
  C7. A rectangle is among the visible rectangles of an element exactly when it comes
  from a client rectangle of the element whose centre the hit test gives to the element
  itself or to a descendant, its left and top are those of the client rectangle raised
  to 0, its right and bottom those of the client rectangle lowered to the viewport
  width and height, and the width and height so obtained are positive. These visible
  rectangles are the rectangles of the items markPage annotates.
\<close>

theorem visible_geometry:
  "(r \<in> set (visibleRects pg vw vh el e) \<longleftrightarrow>
      (\<exists>bb\<in>set (clientRects e).
         (\<exists>d. elementFromPoint pg (bb_left bb + bb_width bb / 2) (bb_top bb + bb_height bb / 2) = Some d \<and>
              (d = el \<or> prefix el d)) \<and>
         rect_left r = max 0 (bb_left bb) \<and> rect_top r = max 0 (bb_top bb) \<and>
         rect_right r = min vw (bb_right bb) \<and> rect_bottom r = min vh (bb_bottom bb) \<and>
         rect_width r = rect_right r - rect_left r \<and>
         rect_height r = rect_bottom r - rect_top r \<and>
         0 < rect_width r \<and> 0 < rect_height r)) \<and>
   (documentElement pg = Some (Elem html ks) \<longrightarrow>
      (\<forall>it\<in>set (selected pg).
         \<exists>e. elementAt (Elem html ks) (element it) = Some e \<and>
           rects it =
             visibleRects pg (viewportWidth pg html) (viewportHeight pg html) (element it) e))"
proof (intro conjI impI ballI)
  show "r \<in> set (visibleRects pg vw vh el e) \<longleftrightarrow>
      (\<exists>bb\<in>set (clientRects e).
         (\<exists>d. elementFromPoint pg (bb_left bb + bb_width bb / 2) (bb_top bb + bb_height bb / 2) = Some d \<and>
              (d = el \<or> prefix el d)) \<and>
         rect_left r = max 0 (bb_left bb) \<and> rect_top r = max 0 (bb_top bb) \<and>
         rect_right r = min vw (bb_right bb) \<and> rect_bottom r = min vh (bb_bottom bb) \<and>
         rect_width r = rect_right r - rect_left r \<and>
         rect_height r = rect_bottom r - rect_top r \<and>
         0 < rect_width r \<and> 0 < rect_height r)"
    unfolding visibleRects_member atCenter_iff
    by (cases r) auto
next
  fix it :: item
  assume "documentElement pg = Some (Elem html ks)" "it \<in> set (selected pg)"
  then show "\<exists>e. elementAt (Elem html ks) (element it) = Some e \<and>
      rects it = visibleRects pg (viewportWidth pg html) (viewportHeight pg html) (element it) e"
    by (rule selected_rects)
qed

theorem visible_geometry_witness:
  "documentElement examplePage = Some exampleTree \<and>
   rects (selected examplePage ! 1) =
     [\<lparr>rect_left = 0, rect_top = 100, rect_right = 210, rect_bottom = 130,
       rect_width = 210, rect_height = 30\<rparr>] \<and>
   rect_width (hd (rects (selected examplePage ! 1))) =
     rect_right (hd (rects (selected examplePage ! 1))) -
     rect_left (hd (rects (selected examplePage ! 1)))"
proof -
  obtain html ks where t: "exampleTree = Elem html ks" by (auto simp: exampleTree_def)
  then have doc: "documentElement examplePage = Some (Elem html ks)" by (simp add: examplePage_def)
  have "length (selected examplePage) = 2" by code_simp
  then have mem: "selected examplePage ! 1 \<in> set (selected examplePage)" by simp
  have rs: "rects (selected examplePage ! 1) =
     [\<lparr>rect_left = 0, rect_top = 100, rect_right = 210, rect_bottom = 130,
       rect_width = 210, rect_height = 30\<rparr>]" by code_simp
  from conjunct2[OF visible_geometry, rule_format, OF doc mem] obtain e where
    e: "rects (selected examplePage ! 1) =
      visibleRects examplePage (viewportWidth examplePage html) (viewportHeight examplePage html)
        (element (selected examplePage ! 1)) e" by blast
  have "hd (rects (selected examplePage ! 1)) \<in> set (rects (selected examplePage ! 1))"
    using rs by simp
  then have "hd (rects (selected examplePage ! 1)) \<in>
      set (visibleRects examplePage (viewportWidth examplePage html) (viewportHeight examplePage html)
        (element (selected examplePage ! 1)) e)" using e by simp
  then have "rect_width (hd (rects (selected examplePage ! 1))) =
     rect_right (hd (rects (selected examplePage ! 1))) -
     rect_left (hd (rects (selected examplePage ! 1)))"
    using conjunct1[OF visible_geometry] by blast
  then show ?thesis using rs doc t by simp
qed

text \<open>
  C9. A client rectangle at whose centre the hit test finds no element fails the first
  filter, so the visible rectangles of an element are those of its other client
  rectangles. An element for which this happens at every client rectangle is not
  annotated and a call of markPage leaves it as it was; this is so in particular when
  the host answers null outside a viewport of some width and height and every centre
  lies outside it.
\<close>

theorem null_centre_discarded:
  "(elementFromPoint pg (bb_left bb + bb_width bb / 2) (bb_top bb + bb_height bb / 2) = None \<longrightarrow>
      \<not> atCenter pg el bb) \<and>
   visibleRects pg vw vh el e =
     visibleRects pg vw vh el
       (e\<lparr>clientRects :=
            filter (\<lambda>bb. elementFromPoint pg (bb_left bb + bb_width bb / 2)
                       (bb_top bb + bb_height bb / 2) \<noteq> None) (clientRects e)\<rparr>) \<and>
   (documentElement pg = Some (Elem html ks) \<longrightarrow> elementAt (Elem html ks) el = Some e \<longrightarrow>
    (\<forall>bb\<in>set (clientRects e).
        elementFromPoint pg (bb_left bb + bb_width bb / 2) (bb_top bb + bb_height bb / 2) = None) \<longrightarrow>
      el \<notin> element ` set (selected pg) \<and>
      (\<forall>res pg'. markPage pg = (res, pg') \<longrightarrow> elementOf pg' el = Some e)) \<and>
   (documentElement pg = Some (Elem html ks) \<longrightarrow> elementAt (Elem html ks) el = Some e \<longrightarrow>
    (\<forall>px py. px < 0 \<or> py < 0 \<or> W < px \<or> H < py \<longrightarrow> elementFromPoint pg px py = None) \<longrightarrow>
    (\<forall>bb\<in>set (clientRects e).
        bb_left bb + bb_width bb / 2 < 0 \<or> bb_top bb + bb_height bb / 2 < 0 \<or>
        W < bb_left bb + bb_width bb / 2 \<or> H < bb_top bb + bb_height bb / 2) \<longrightarrow>
      el \<notin> element ` set (selected pg))"
proof -
  let ?cx = "\<lambda>bb. bb_left bb + bb_width bb / 2"
  let ?cy = "\<lambda>bb. bb_top bb + bb_height bb / 2"
  have a: "\<not> atCenter pg el bb" if "elementFromPoint pg (?cx bb) (?cy bb) = None" for bb
    using that by (simp add: atCenter_iff)
  have f: "filter (atCenter pg el) (filter (\<lambda>bb. elementFromPoint pg (?cx bb) (?cy bb) \<noteq> None) bs)
      = filter (atCenter pg el) bs" for bs
    using a by (induction bs) auto
  have b: "visibleRects pg vw vh el e =
     visibleRects pg vw vh el
       (e\<lparr>clientRects := filter (\<lambda>bb. elementFromPoint pg (?cx bb) (?cy bb) \<noteq> None) (clientRects e)\<rparr>)"
  proof -
    have sel: "clientRects (e\<lparr>clientRects := bs\<rparr>) = bs" for bs by simp
    show ?thesis by (simp only: visibleRects_def sel f)
  qed
  have c: "el \<notin> element ` set (selected pg) \<and>
      (\<forall>res pg'. markPage pg = (res, pg') \<longrightarrow> elementOf pg' el = Some e)"
    if doc: "documentElement pg = Some (Elem html ks)" and e: "elementAt (Elem html ks) el = Some e"
      and n: "\<forall>bb\<in>set (clientRects e). elementFromPoint pg (?cx bb) (?cy bb) = None"
  proof -
    have "visibleRects pg (viewportWidth pg html) (viewportHeight pg html) el e = []"
      using n a by (auto simp: visibleRects_def filter_empty_conv)
    then have ns: "el \<notin> element ` set (selected pg)"
      using no_rects_not_selected[OF doc e] by blast
    have "elementOf pg' el = Some e" if "markPage pg = (res, pg')" for res pg'
    proof (rule ccontr)
      assume "elementOf pg' el \<noteq> Some e"
      moreover have "elementOf pg el = Some e" using doc e by (simp add: elementOf_def)
      ultimately show False using markPage_changed[OF that] ns by blast
    qed
    then show ?thesis using ns by blast
  qed
  have d: "el \<notin> element ` set (selected pg)"
    if doc: "documentElement pg = Some (Elem html ks)" and e: "elementAt (Elem html ks) el = Some e"
      and host: "\<forall>px py. px < 0 \<or> py < 0 \<or> W < px \<or> H < py \<longrightarrow> elementFromPoint pg px py = None"
      and out: "\<forall>bb\<in>set (clientRects e). ?cx bb < 0 \<or> ?cy bb < 0 \<or> W < ?cx bb \<or> H < ?cy bb"
  proof -
    have "\<forall>bb\<in>set (clientRects e). elementFromPoint pg (?cx bb) (?cy bb) = None"
      using host out by blast
    from c[OF doc e this] show ?thesis by blast
  qed
  show ?thesis using a b c d by blast
qed

theorem null_centre_discarded_witness:
  "elementOf offscreenPage [1, 0] = Some offscreenButton \<and>
   clientRects offscreenButton = [\<lparr>bb_left = - 300, bb_top = 10, bb_right = 100, bb_bottom = 50, bb_width = 400, bb_height = 40\<rparr>] \<and>
   elementFromPoint offscreenPage (- 100) 30 = None \<and>
   withSize (clip 800 600 (hd (clientRects offscreenButton))) =
     \<lparr>rect_left = 0, rect_top = 10, rect_right = 100, rect_bottom = 50,
      rect_width = 100, rect_height = 40\<rparr> \<and>
   [1, 0] \<notin> element ` set (selected offscreenPage) \<and>
   elementOf (snd (markPage offscreenPage)) [1, 0] = Some offscreenButton"
proof -
  let ?ks = "[Elem (createElement ''HEAD'') [],
              Elem (createElement ''BODY'') [Elem offscreenButton [Text ''Menu'']]]"
  have doc: "documentElement offscreenPage = Some (Elem offscreenHtml ?ks)"
    by (simp add: offscreenPage_def)
  have e: "elementAt (Elem offscreenHtml ?ks) [1, 0] = Some offscreenButton" by simp
  have rs: "clientRects offscreenButton =
      [\<lparr>bb_left = - 300, bb_top = 10, bb_right = 100, bb_bottom = 50, bb_width = 400, bb_height = 40\<rparr>]"
    by (simp add: offscreenButton_def)
  have n: "\<forall>bb\<in>set (clientRects offscreenButton).
      elementFromPoint offscreenPage (bb_left bb + bb_width bb / 2) (bb_top bb + bb_height bb / 2) = None"
    by (simp add: rs offscreenPage_def)
  have m: "markPage offscreenPage = (fst (markPage offscreenPage), snd (markPage offscreenPage))"
    by simp
  have c: "[1, 0] \<notin> element ` set (selected offscreenPage) \<and>
      (\<forall>res pg'. markPage offscreenPage = (res, pg') \<longrightarrow> elementOf pg' [1, 0] = Some offscreenButton)"
    using null_centre_discarded[where pg = offscreenPage and el = "[1, 0]" and e = offscreenButton
        and html = offscreenHtml and ks = ?ks] doc e n
    by blast
  have "[1, 0] \<notin> element ` set (selected offscreenPage)" using c by blast
  moreover have "elementOf (snd (markPage offscreenPage)) [1, 0] = Some offscreenButton"
    using c m by blast
  moreover have "elementOf offscreenPage [1, 0] = Some offscreenButton"
    using doc e by (simp add: elementOf_def)
  moreover have "elementFromPoint offscreenPage (- 100) 30 = None"
    by (simp add: offscreenPage_def)
  moreover have "withSize (clip 800 600 (hd (clientRects offscreenButton))) =
     \<lparr>rect_left = 0, rect_top = 10, rect_right = 100, rect_bottom = 50,
      rect_width = 100, rect_height = 40\<rparr>"
    by (simp add: rs withSize_def clip_def)
  ultimately show ?thesis using rs by blast
qed

text \<open>
  C8. The container of a rectangle is fixed at the top and with the height of the
  rectangle, and its label is positioned inside it at an offset that is at least the
  height of the rectangle (the label starts below the rectangle) exactly when the top
  of the rectangle is less than 20, and is -20 (the label starts 20 pixels above the
  rectangle) exactly when it is not. The children that a returning call of markPage
  appends to the body are these containers, one for every rectangle of every annotated
  item, and every such rectangle has positive height.
\<close>

theorem label_below_near_top:
  "(0 < rect_height bbox \<longrightarrow>
      (\<exists>c l lt. overlay index bbox = Elem c [Elem l [Text (decimal index)]] \<and>
         map_of (style c) ''position'' = Some (Lit ''fixed'') \<and>
         map_of (style c) ''top'' = Some (Px (rect_top bbox)) \<and>
         map_of (style c) ''height'' = Some (Px (rect_height bbox)) \<and>
         map_of (style l) ''position'' = Some (Lit ''absolute'') \<and>
         map_of (style l) ''top'' = Some (Px lt) \<and>
         (rect_height bbox \<le> lt \<longleftrightarrow> rect_top bbox < 20) \<and>
         (lt = - 20 \<longleftrightarrow> \<not> rect_top bbox < 20))) \<and>
   (markPage pg = (Inr idxs, pg') \<longrightarrow> documentElement pg = Some t \<longrightarrow> body t = Some b \<longrightarrow>
      (\<exists>t'. documentElement pg' = Some t' \<and>
         childCount t' b = childCount t b + (\<Sum>it\<leftarrow>selected pg. length (rects it)) \<and>
         (\<forall>k<(\<Sum>it\<leftarrow>selected pg. length (rects it)).
            \<exists>i bbox. i < length (selected pg) \<and> bbox \<in> set (rects (selected pg ! i)) \<and>
              0 < rect_height bbox \<and>
              nodeAt t' (b @ [childCount t b + k]) = Some (overlay i bbox)) \<and>
         (\<forall>i<length (selected pg). \<forall>bbox\<in>set (rects (selected pg ! i)).
            \<exists>k<(\<Sum>it\<leftarrow>selected pg. length (rects it)).
              nodeAt t' (b @ [childCount t b + k]) = Some (overlay i bbox))))"
proof (intro conjI impI)
  assume h: "0 < rect_height bbox"
  let ?c = "setAttribute ''data-voyager-rect-index'' (decimal index)
              ((createElement ''DIV'')\<lparr>style := containerStyle bbox\<rparr>)"
  let ?l = "(createElement ''SPAN'')\<lparr>style := labelStyle bbox\<rparr>"
  have "overlay index bbox = Elem ?c [Elem ?l [Text (decimal index)]]"
    by (simp add: overlay_def Let_def)
  moreover have "map_of (style ?c) ''position'' = Some (Lit ''fixed'')"
    "map_of (style ?c) ''top'' = Some (Px (rect_top bbox))"
    "map_of (style ?c) ''height'' = Some (Px (rect_height bbox))"
    by (simp_all add: setAttribute_def containerStyle_def)
  moreover have "map_of (style ?l) ''position'' = Some (Lit ''absolute'')"
    "map_of (style ?l) ''top'' = Some (Px (labelTop bbox))"
    by (simp_all add: labelStyle_def Let_def)
  moreover have "(rect_height bbox \<le> labelTop bbox \<longleftrightarrow> rect_top bbox < 20) \<and>
      (labelTop bbox = - 20 \<longleftrightarrow> \<not> rect_top bbox < 20)"
    using h by (auto simp: labelTop_def Let_def)
  ultimately show "\<exists>c l lt. overlay index bbox = Elem c [Elem l [Text (decimal index)]] \<and>
         map_of (style c) ''position'' = Some (Lit ''fixed'') \<and>
         map_of (style c) ''top'' = Some (Px (rect_top bbox)) \<and>
         map_of (style c) ''height'' = Some (Px (rect_height bbox)) \<and>
         map_of (style l) ''position'' = Some (Lit ''absolute'') \<and>
         map_of (style l) ''top'' = Some (Px lt) \<and>
         (rect_height bbox \<le> lt \<longleftrightarrow> rect_top bbox < 20) \<and>
         (lt = - 20 \<longleftrightarrow> \<not> rect_top bbox < 20)"
    by blast
next
  assume m: "markPage pg = (Inr idxs, pg')" and doc: "documentElement pg = Some t"
    and b: "body t = Some b"
  let ?os = "overlaysFrom 0 (selected pg)"
  let ?t' = "appendAll b ?os (tagAll 0 (selected pg) t)"
  have len: "length ?os = (\<Sum>it\<leftarrow>selected pg. length (rects it))" by (rule overlaysFrom_length)
  have d': "documentElement pg' = Some ?t'" using markPage_rendered[OF m doc b] by simp
  have cc: "childCount ?t' b = childCount t b + (\<Sum>it\<leftarrow>selected pg. length (rects it))"
    using rendered_children(1)[OF b, of "selected pg"] len by simp
  have fwd: "\<exists>i bbox. i < length (selected pg) \<and> bbox \<in> set (rects (selected pg ! i)) \<and>
        0 < rect_height bbox \<and> nodeAt ?t' (b @ [childCount t b + k]) = Some (overlay i bbox)"
    if "k < (\<Sum>it\<leftarrow>selected pg. length (rects it))" for k
  proof -
    from that len have k: "k < length ?os" by simp
    then have "?os ! k \<in> set ?os" by simp
    then obtain i bbox where i: "i < length (selected pg)" "bbox \<in> set (rects (selected pg ! i))"
      "?os ! k = overlay i bbox" using overlaysFrom_member[of "?os ! k" 0 "selected pg"] by auto
    have "0 < rect_height bbox" using selected_rect_positive[of "selected pg ! i" pg bbox] i by simp
    then show ?thesis using i rendered_children(2)[OF b k] by auto
  qed
  have bwd: "\<exists>k<(\<Sum>it\<leftarrow>selected pg. length (rects it)).
        nodeAt ?t' (b @ [childCount t b + k]) = Some (overlay i bbox)"
    if "i < length (selected pg)" "bbox \<in> set (rects (selected pg ! i))" for i bbox
  proof -
    have "overlay i bbox \<in> set ?os" using that overlaysFrom_member[of "overlay i bbox" 0 "selected pg"]
      by auto
    then obtain k where k: "k < length ?os" "?os ! k = overlay i bbox"
      by (auto simp: in_set_conv_nth)
    then show ?thesis using rendered_children(2)[OF b k(1)] len by auto
  qed
  show "\<exists>t'. documentElement pg' = Some t' \<and>
         childCount t' b = childCount t b + (\<Sum>it\<leftarrow>selected pg. length (rects it)) \<and>
         (\<forall>k<(\<Sum>it\<leftarrow>selected pg. length (rects it)).
            \<exists>i bbox. i < length (selected pg) \<and> bbox \<in> set (rects (selected pg ! i)) \<and>
              0 < rect_height bbox \<and>
              nodeAt t' (b @ [childCount t b + k]) = Some (overlay i bbox)) \<and>
         (\<forall>i<length (selected pg). \<forall>bbox\<in>set (rects (selected pg ! i)).
            \<exists>k<(\<Sum>it\<leftarrow>selected pg. length (rects it)).
              nodeAt t' (b @ [childCount t b + k]) = Some (overlay i bbox))"
    using d' cc fwd bwd by blast
qed

theorem label_below_near_top_witness:
  "markPage examplePage = (Inr [0, 1], snd (markPage examplePage)) \<and>
   documentElement examplePage = Some exampleTree \<and>
   body exampleTree = Some [1] \<and>
   rect_top (hd (rects (selected examplePage ! 0))) = 10 \<and>
   rect_height (hd (rects (selected examplePage ! 0))) = 40 \<and>
   (\<exists>c l lt. overlay 0 (hd (rects (selected examplePage ! 0))) = Elem c [Elem l [Text (decimal 0)]] \<and>
      map_of (style l) ''top'' = Some (Px lt) \<and> 40 \<le> lt) \<and>
   rect_top (hd (rects (selected examplePage ! 1))) = 100 \<and>
   (\<exists>c l. overlay 1 (hd (rects (selected examplePage ! 1))) = Elem c [Elem l [Text (decimal 1)]] \<and>
      map_of (style l) ''top'' = Some (Px (- 20))) \<and>
   (\<exists>t'. documentElement (snd (markPage examplePage)) = Some t' \<and>
      childCount t' [1] = childCount exampleTree [1] + 2)"
proof -
  have "fst (markPage examplePage) = Inr [0, 1]" by code_simp
  then have m: "markPage examplePage = (Inr [0, 1], snd (markPage examplePage))"
    by (simp add: prod_eq_iff)
  have doc: "documentElement examplePage = Some exampleTree" by (simp add: examplePage_def)
  have b: "body exampleTree = Some [1]" by code_simp
  have r0: "rects (selected examplePage ! 0) =
      [\<lparr>rect_left = 10, rect_top = 10, rect_right = 110, rect_bottom = 50,
        rect_width = 100, rect_height = 40\<rparr>]" by code_simp
  have r1: "rects (selected examplePage ! 1) =
      [\<lparr>rect_left = 0, rect_top = 100, rect_right = 210, rect_bottom = 130,
        rect_width = 210, rect_height = 30\<rparr>]" by code_simp
  have n: "(\<Sum>it\<leftarrow>selected examplePage. length (rects it)) = 2" by code_simp
  have h0: "0 < rect_height (hd (rects (selected examplePage ! 0)))" using r0 by simp
  have h1: "0 < rect_height (hd (rects (selected examplePage ! 1)))" using r1 by simp
  from conjunct1[OF label_below_near_top, rule_format, OF h0, of 0] r0
  have a0: "\<exists>c l lt. overlay 0 (hd (rects (selected examplePage ! 0))) = Elem c [Elem l [Text (decimal 0)]] \<and>
      map_of (style l) ''top'' = Some (Px lt) \<and> 40 \<le> lt"
    by auto
  from conjunct1[OF label_below_near_top, rule_format, OF h1, of 1] r1
  have a1: "\<exists>c l. overlay 1 (hd (rects (selected examplePage ! 1))) = Elem c [Elem l [Text (decimal 1)]] \<and>
      map_of (style l) ''top'' = Some (Px (- 20))"
    by auto
  from conjunct2[OF label_below_near_top, rule_format, OF m doc b] n
  have a2: "\<exists>t'. documentElement (snd (markPage examplePage)) = Some t' \<and>
      childCount t' [1] = childCount exampleTree [1] + 2"
    by auto
  show ?thesis using m doc b r0 r1 a0 a1 a2 by simp
qed

text \<open>
  C1. On the example page markPage tags the button and the link and appends two
  overlays. clearRectsAndTags then removes the overlays, but both elements still carry
  the index attribute: the second query of the script selects on
  \<^verbatim>\<open>date-voyager-element-index\<close>, which no element carries. clearElements, which
  selects on the attribute it removes, leaves none.
\<close>

theorem clearRectsAndTags_leaves_tags:
  "withAttribute ''data-voyager-rect-index'' (snd (markPage examplePage)) = [[1, 2], [1, 3]] \<and>
   withAttribute ''data-voyager-element-index'' (snd (markPage examplePage)) = [[1, 0], [1, 1]] \<and>
   withAttribute ''data-voyager-rect-index'' (clearRectsAndTags (snd (markPage examplePage))) = [] \<and>
   withAttribute ''data-voyager-element-index'' (clearRectsAndTags (snd (markPage examplePage))) =
     [[1, 0], [1, 1]] \<and>
   withAttribute ''data-voyager-element-index'' (clearElements (snd (markPage examplePage))) = []"
  by code_simp



text \<open>
  C2. When markPage returns, it returns \<open>0..N-1\<close> for the N annotated items. Their
  elements are pairwise different, the i-th carries the decimal string of i as its
  index attribute, and different positions give different strings. The elements that
  carry the index attribute afterwards are these N together with the elements that
  carried one before the call, which are left as they were. So when no element outside
  the annotated ones carried the attribute before, exactly N elements carry it, and
  among them the value of i is carried by the i-th annotated element and no other.
\<close>

theorem index_assignment:
  assumes "markPage pg = (Inr idxs, pg')"
  shows "idxs = [0..<length (selected pg)] \<and>
     distinct (map element (selected pg)) \<and>
     (\<forall>i<length (selected pg).
        \<exists>e. elementOf pg' (element (selected pg ! i)) = Some e \<and>
          getAttribute e ''data-voyager-element-index'' = Some (decimal i)) \<and>
     (\<forall>i j. decimal i = decimal j \<longrightarrow> i = j) \<and>
     distinct (withAttribute ''data-voyager-element-index'' pg') \<and>
     set (withAttribute ''data-voyager-element-index'' pg') =
       element ` set (selected pg) \<union> set (withAttribute ''data-voyager-element-index'' pg) \<and>
     (\<forall>p e. p \<notin> element ` set (selected pg) \<longrightarrow> elementOf pg p = Some e \<longrightarrow>
        elementOf pg' p = Some e) \<and>
     (set (withAttribute ''data-voyager-element-index'' pg) \<subseteq> element ` set (selected pg) \<longrightarrow>
        length (withAttribute ''data-voyager-element-index'' pg') = length (selected pg) \<and>
        (\<forall>p\<in>set (withAttribute ''data-voyager-element-index'' pg').
           \<forall>i<length (selected pg). \<forall>e. elementOf pg' p = Some e \<longrightarrow>
             (getAttribute e ''data-voyager-element-index'' = Some (decimal i) \<longleftrightarrow>
              p = element (selected pg ! i))))"
proof -
  let ?k = "''data-voyager-element-index''"
  let ?its = "selected pg"
  have c1: "idxs = [0..<length ?its]" using assms by (rule markPage_Inr_selected)
  have c2: "distinct (map element ?its)" by (rule selected_distinct)
  have tag: "\<exists>y. elementOf pg' (element (?its ! i)) = Some (setAttribute ?k (decimal i) y)"
    if "i < length ?its" for i
    using markPage_tags[OF assms, of i] that c1 by auto
  have c3: "\<forall>i<length ?its. \<exists>e. elementOf pg' (element (?its ! i)) = Some e \<and>
      getAttribute e ?k = Some (decimal i)"
    using tag by (fastforce simp: getAttribute_setAttribute)
  have c4: "\<forall>i j. decimal i = decimal j \<longrightarrow> i = j" using decimal_inj by blast
  have c5: "distinct (withAttribute ?k pg')" by (rule withAttribute_distinct)
  have c6: "set (withAttribute ?k pg') = element ` set ?its \<union> set (withAttribute ?k pg)"
    using assms by (rule markPage_carriers)
  have c7: "\<forall>p e. p \<notin> element ` set ?its \<longrightarrow> elementOf pg p = Some e \<longrightarrow> elementOf pg' p = Some e"
    using markPage_changed[OF assms] by blast
  have c8: "length (withAttribute ?k pg') = length ?its \<and>
        (\<forall>p\<in>set (withAttribute ?k pg'). \<forall>i<length ?its. \<forall>e. elementOf pg' p = Some e \<longrightarrow>
             (getAttribute e ?k = Some (decimal i) \<longleftrightarrow> p = element (?its ! i)))"
    if sub: "set (withAttribute ?k pg) \<subseteq> element ` set ?its"
  proof
    from c6 sub have eq: "set (withAttribute ?k pg') = set (map element ?its)" by auto
    have "length (withAttribute ?k pg') = card (set (withAttribute ?k pg'))"
      using c5 by (simp add: distinct_card)
    also have "\<dots> = card (set (map element ?its))" using eq by simp
    also have "\<dots> = length (map element ?its)" using c2 by (rule distinct_card)
    finally show "length (withAttribute ?k pg') = length ?its" by simp
    show "\<forall>p\<in>set (withAttribute ?k pg'). \<forall>i<length ?its. \<forall>e. elementOf pg' p = Some e \<longrightarrow>
             (getAttribute e ?k = Some (decimal i) \<longleftrightarrow> p = element (?its ! i))"
    proof (intro ballI allI impI)
      fix p i e
      assume p: "p \<in> set (withAttribute ?k pg')" and i: "i < length ?its"
        and e: "elementOf pg' p = Some e"
      from p eq obtain j where j: "j < length ?its" "p = element (?its ! j)"
        by (auto simp: in_set_conv_nth)
      from tag[OF j(1)] j(2) e have "getAttribute e ?k = Some (decimal j)"
        by (auto simp: getAttribute_setAttribute)
      moreover have "(element (?its ! j) = element (?its ! i)) = (j = i)"
        using c2 i j(1) by (simp add: distinct_conv_nth) (metis length_map nth_map)
      ultimately show "getAttribute e ?k = Some (decimal i) \<longleftrightarrow> p = element (?its ! i)"
        using j(2) decimal_inj by auto
    qed
  qed
  show ?thesis using c1 c2 c3 c4 c5 c6 c7 c8 by blast
qed

theorem index_assignment_witness:
  "markPage examplePage = (Inr [0, 1], snd (markPage examplePage)) \<and>
   withAttribute ''data-voyager-element-index'' examplePage = [] \<and>
   [0, 1] = [0..<length (selected examplePage)] \<and>
   distinct (map element (selected examplePage)) \<and>
   length (withAttribute ''data-voyager-element-index'' (snd (markPage examplePage))) =
     length (selected examplePage)"
proof -
  have "fst (markPage examplePage) = Inr [0, 1]" by code_simp
  then have m: "markPage examplePage = (Inr [0, 1], snd (markPage examplePage))"
    by (simp add: prod_eq_iff)
  have none: "withAttribute ''data-voyager-element-index'' examplePage = []" by code_simp
  then have sub: "set (withAttribute ''data-voyager-element-index'' examplePage)
      \<subseteq> element ` set (selected examplePage)" by simp
  from index_assignment[OF m] sub m none show ?thesis by blast
qed

theorem stale_index_counterexample:
  "fst (markPage stalePage) = Inr [0] \<and>
   map element (selected stalePage) = [[1, 0]] \<and>
   withAttribute ''data-voyager-element-index'' (snd (markPage stalePage)) = [[1, 0], [1, 1]] \<and>
   getAttribute (the (elementOf (snd (markPage stalePage)) [1, 0])) ''data-voyager-element-index'' =
     Some ''0'' \<and>
   getAttribute (the (elementOf (snd (markPage stalePage)) [1, 1])) ''data-voyager-element-index'' =
     Some ''0''"
  by code_simp

text \<open>
  C3. The items markPage annotates are what the cap makes of the candidates that are
  not nested. When more than 60 items reach the cap, it keeps the first 60 of the
  sorted list, and the sorted list is a rearrangement of the items in which depth
  ascends and, at equal depth, area descends, and in which items equal in depth and
  area keep their order; the comparator reads nothing but depth and area. When all
  items have the same depth, every item kept has at least the area of every item
  dropped.
\<close>

theorem cap_keeps_first_60:
  assumes "60 < length items"
  shows "selected pg = prioritize (removeNested (candidates pg)) \<and>
     prioritize items = take 60 (sortBy compareItems items) \<and>
     length (prioritize items) = 60 \<and>
     mset (sortBy compareItems items) = mset items \<and>
     sorted_wrt (\<lambda>a b. depth a < depth b \<or> (depth a = depth b \<and> area b \<le> area a))
       (sortBy compareItems items) \<and>
     (\<forall>d a. filter (\<lambda>c. depth c = d \<and> area c = a) (sortBy compareItems items) =
            filter (\<lambda>c. depth c = d \<and> area c = a) items) \<and>
     (\<forall>a b a' b'. depth a = depth a' \<and> area a = area a' \<and> depth b = depth b' \<and> area b = area b' \<longrightarrow>
        compareItems a b = compareItems a' b') \<and>
     ((\<forall>c\<in>set items. \<forall>c'\<in>set items. depth c = depth c') \<longrightarrow>
        (\<forall>a\<in>set (prioritize items). \<forall>b\<in>set (drop 60 (sortBy compareItems items)).
           area b \<le> area a))"
proof -
  let ?R = "sortBy compareItems items"
  have p: "prioritize items = take 60 ?R" using assms by (simp add: prioritize_def MAX_ELEMENTS_def)
  have ms: "mset ?R = mset items" by (rule mset_sortBy)
  then have len: "length ?R = length items" by (metis size_mset)
  have l60: "length (prioritize items) = 60" using p len assms by simp
  have "sorted (map rank (sort_key rank items))" by (rule sorted_sort_key)
  then have so: "sorted_wrt (\<lambda>a b. depth a < depth b \<or> (depth a = depth b \<and> area b \<le> area a)) ?R"
    by (simp add: sortBy_sort_key sorted_map rank_le)
  have st: "filter (\<lambda>c. depth c = d \<and> area c = a) ?R = filter (\<lambda>c. depth c = d \<and> area c = a) items"
    for d a
  proof -
    have "(\<lambda>c. rank c = (d, - a)) = (\<lambda>c. depth c = d \<and> area c = a)"
      by (auto simp: rank_def fun_eq_iff)
    then show ?thesis using sort_key_stable[of rank "(d, - a)" items] by (simp add: sortBy_sort_key)
  qed
  have keys: "\<forall>a b a' b'. depth a = depth a' \<and> area a = area a' \<and> depth b = depth b' \<and> area b = area b' \<longrightarrow>
        compareItems a b = compareItems a' b'"
    by (simp add: compareItems_def)
  have same: "\<forall>a\<in>set (prioritize items). \<forall>b\<in>set (drop 60 ?R). area b \<le> area a"
    if eq: "\<forall>c\<in>set items. \<forall>c'\<in>set items. depth c = depth c'"
  proof (intro ballI)
    fix a b assume a: "a \<in> set (prioritize items)" and b: "b \<in> set (drop 60 ?R)"
    have sR: "set ?R = set items" using ms by (metis set_mset_mset)
    have "a \<in> set items" using a p sR set_take_subset by fastforce
    moreover have "b \<in> set items" using b sR set_drop_subset by fastforce
    ultimately have "depth a = depth b" using eq by blast
    moreover have "depth a < depth b \<or> (depth a = depth b \<and> area b \<le> area a)"
      using sorted_take_drop[OF so, of a 60 b] a b p by simp
    ultimately show "area b \<le> area a" by simp
  qed
  show ?thesis using selected_eq[of pg] p l60 ms so st keys same by blast
qed

theorem cap_keeps_first_60_witness:
  "60 < length crowd \<and>
   prioritize crowd = take 60 (sortBy compareItems crowd) \<and>
   length (prioritize crowd) = 60 \<and>
   mset (sortBy compareItems crowd) = mset crowd \<and>
   area (hd (drop 60 (sortBy compareItems crowd))) \<le> area (hd (prioritize crowd))"
proof -
  have h: "60 < length crowd" by (simp add: crowd_def)
  note T = cap_keeps_first_60[OF h]
  have d: "\<forall>c\<in>set crowd. \<forall>c'\<in>set crowd. depth c = depth c'" by (auto simp: crowd_def)
  have l: "length (prioritize crowd) = 60" using T by blast
  have "length (sortBy compareItems crowd) = length crowd"
    using T by (metis size_mset)
  then have "drop 60 (sortBy compareItems crowd) \<noteq> []" using h by simp
  then have b: "hd (drop 60 (sortBy compareItems crowd)) \<in> set (drop 60 (sortBy compareItems crowd))"
    by simp
  have "prioritize crowd \<noteq> []" using l by auto
  then have a: "hd (prioritize crowd) \<in> set (prioritize crowd)" by simp
  have "area (hd (drop 60 (sortBy compareItems crowd))) \<le> area (hd (prioritize crowd))"
    using T d a b by blast
  then show ?thesis using T h by blast
qed

end
